theory Spec2Isabelle
  imports Main "HOL-Library.AList"
begin

section \<open>Values, objects and errors\<close>

text \<open>
  The module engine of \<^verbatim>\<open>src/lib/aether.ts\<close> handles provider values of type
  \<^verbatim>\<open>unknown\<close>. The model keeps the JavaScript values the code inspects with
  \<^verbatim>\<open>typeof\<close>, \<^verbatim>\<open>Array.isArray\<close> and \<^verbatim>\<open>Object.entries\<close>:
  primitives, functions (named by a number and interpreted by a parameter of the model),
  arrays, plain objects (the list of their own enumerable properties in enumeration
  order) and \<open>VRef\<close>, a reference to a host object without own enumerable properties
  such as a \<^verbatim>\<open>Map\<close>; two equal \<open>VRef\<close>s are the same mutable object.
\<close>

datatype val =
    VUndefined
  | VNull
  | VBool bool
  | VNum int
  | VStr string
  | VFun nat
  | VRef nat
  | VArr "val list"
  | VObj "(string \<times> val) list"

type_synonym obj = "(string \<times> val) list"

datatype ProviderKind = Decorator | Store

datatype LifeCycleType = Global | Scoped | Local

datatype ContextAppendType = Append | Override

text \<open>
  Every \<^verbatim>\<open>throw\<close> of the source is a constructor. \<open>Thrown\<close> is a value raised by
  user code (a factory or a lifecycle callback); \<open>NotCallable\<close> is the
  \<^verbatim>\<open>TypeError\<close> of calling a value that is not a function; \<open>OutsideTypes\<close> marks an
  options object whose \<^verbatim>\<open>kind\<close> or \<^verbatim>\<open>mode\<close> is outside the declared
  unions, which the TypeScript signatures exclude and the model does not follow further.
\<close>

datatype error =
    NotStarted string
  | ProvideRequiresOptions
  | InvalidArguments
  | ReservedKey string ProviderKind
  | AlreadyDefined ProviderKind string
  | Collision ProviderKind string "string option"
  | ImportCollision ProviderKind string "string option"
  | ExtendRequiresFunction
  | PluginMustReturnAether
  | ExtensionCollision string string string
  | InvalidPluginType
  | NotCallable
  | OutsideTypes string
  | Thrown val

definition PROVIDER_KINDS :: "ProviderKind list" where
  "PROVIDER_KINDS = [Decorator, Store]"

fun RESERVED_KEYS :: "ProviderKind \<Rightarrow> string" where
  "RESERVED_KEYS Decorator = ''decorator''"
| "RESERVED_KEYS Store = ''store''"

subsection \<open>Plain objects\<close>

text \<open>
  The provider maps are plain objects created by \<^verbatim>\<open>{}\<close>, so they inherit from
  \<^verbatim>\<open>Object.prototype\<close>: the operator \<^verbatim>\<open>in\<close> answers true for an own key and
  for every name of the prototype. An assignment to \<^verbatim>\<open>__proto__\<close> goes to the
  inherited setter and creates no own property (the change of prototype it may cause is
  not followed). The enumeration order of integer-like keys, which JavaScript lists
  first, is not modelled: properties are listed in insertion order.
\<close>

definition proto_keys :: "string list" where
  "proto_keys = [''constructor'', ''hasOwnProperty'', ''isPrototypeOf'',
     ''propertyIsEnumerable'', ''toLocaleString'', ''toString'', ''valueOf'', ''__proto__'',
     ''__defineGetter__'', ''__defineSetter__'', ''__lookupGetter__'', ''__lookupSetter__'']"

definition has_in :: "string \<Rightarrow> obj \<Rightarrow> bool" where
  "has_in k ob \<longleftrightarrow> k \<in> fst ` set ob \<or> k \<in> set proto_keys"

definition obj_set :: "string \<Rightarrow> val \<Rightarrow> obj \<Rightarrow> obj" where
  "obj_set k v ob = (if k = ''__proto__'' then ob else AList.update k v ob)"

definition obj_delete :: "string \<Rightarrow> obj \<Rightarrow> obj" where
  "obj_delete k ob = AList.delete k ob"

definition obj_assign :: "obj \<Rightarrow> obj \<Rightarrow> obj" where
  "obj_assign target source = fold (\<lambda>(k, v) t. obj_set k v t) source target"

definition get_prop :: "obj \<Rightarrow> string \<Rightarrow> val" where
  "get_prop ob k = (case map_of ob k of None \<Rightarrow> VUndefined | Some v \<Rightarrow> v)"

definition digit_char :: "nat \<Rightarrow> char" where
  "digit_char n = ''0123456789'' ! (n mod 10)"

fun string_of_nat :: "nat \<Rightarrow> string" where
  "string_of_nat n = (if n < 10 then [digit_char n]
     else string_of_nat (n div 10) @ [digit_char (n mod 10)])"

declare string_of_nat.simps [simp del]

text \<open>\<^verbatim>\<open>Object.entries\<close> of a value that passed the test \<^verbatim>\<open>typeof v === "object"\<close>.\<close>

fun object_entries :: "val \<Rightarrow> (string \<times> val) list" where
  "object_entries (VObj ob) = ob"
| "object_entries (VArr vs) = map (\<lambda>i. (string_of_nat i, vs ! i)) [0..<length vs]"
| "object_entries _ = []"

fun truthy :: "val \<Rightarrow> bool" where
  "truthy VUndefined = False"
| "truthy VNull = False"
| "truthy (VBool b) = b"
| "truthy (VNum n) = (n \<noteq> 0)"
| "truthy (VStr s) = (s \<noteq> [])"
| "truthy _ = True"

fun is_object :: "val \<Rightarrow> bool" where
  "is_object VNull = True"
| "is_object (VRef _) = True"
| "is_object (VArr _) = True"
| "is_object (VObj _) = True"
| "is_object _ = False"

fun is_string :: "val \<Rightarrow> bool" where
  "is_string (VStr _) = True"
| "is_string _ = False"

fun is_function :: "val \<Rightarrow> bool" where
  "is_function (VFun _) = True"
| "is_function _ = False"

section \<open>Module definitions\<close>

text \<open>
  Module definitions are objects compared by identity (they are the keys of the tree
  builder's \<^verbatim>\<open>WeakMap\<close>), so a definition is named by a number and the definitions
  live in a store \<open>def_id \<Rightarrow> ModuleDefinition\<close>. The optional fields of
  \<open>ProviderEntry\<close> are always written by \<^verbatim>\<open>#pushEntry\<close>; the model keeps them as
  plain fields, an absent one reading as \<open>False\<close> (\<^verbatim>\<open>transitive\<close>,
  \<^verbatim>\<open>isFactory\<close>) or \<open>Append\<close> (\<^verbatim>\<open>mode\<close>), as the source's defaults do.
  Scope identities are the global sentinel symbol, a fresh symbol made by the engine
  (numbered), a symbol supplied by the caller or a string;
  the root symbol of a \<^verbatim>\<open>start()\<close> call is created inside that call and can occur
  in no edge, so it is a separate cache key.
\<close>

type_synonym def_id = nat

datatype scope_id = GLOBAL_SCOPE | Sym nat | UserSym nat | Str string

datatype cache_key = RootKey | EdgeKey scope_id

record ProviderEntry =
  pe_kind :: ProviderKind
  pe_key :: string
  pe_value :: val
  pe_export :: bool
  pe_transitive :: bool
  pe_isFactory :: bool
  pe_mode :: ContextAppendType

record UseEdge =
  ue_name :: string
  ue_def :: def_id
  ue_scopeId :: "scope_id option"
  ue_transitive :: "bool option"

text \<open>
  The context handed to callbacks and to decorator factories is the object
  \<^verbatim>\<open>{ ...decorators, decorator: decorators, store: store }\<close>: the decorators
  flattened, then the two sub-objects, which replace a decorator of the same name.
\<close>

datatype ctx_prop = PVal val | PObj obj

type_synonym ctx = "(string \<times> ctx_prop) list"

definition mk_ctx :: "obj \<Rightarrow> obj \<Rightarrow> ctx" where
  "mk_ctx dec st =
     AList.update ''store'' (PObj st)
       (AList.update ''decorator'' (PObj dec) (map (\<lambda>(k, v). (k, PVal v)) dec))"

text \<open>
  A lifecycle callback is user code: it receives the node's \<^verbatim>\<open>callbackCtx\<close>
  (\<open>None\<close> is \<^verbatim>\<open>null\<close>), acts on the world outside the engine (of type \<open>'w\<close>)
  and may raise. Awaiting it is running it to completion. A callback that reaches back
  into the engine's private maps or into a module instance is outside the model.
\<close>

type_synonym 'w callback = "ctx option \<Rightarrow> 'w \<Rightarrow> error + 'w"

record 'w ModuleDefinition =
  md_providers :: "ProviderEntry list"
  md_loadCallbacks :: "'w callback list"
  md_unloadCallbacks :: "'w callback list"
  md_uses :: "UseEdge list"

definition emptyDef :: "'w ModuleDefinition" where
  "emptyDef = \<lparr>md_providers = [], md_loadCallbacks = [], md_unloadCallbacks = [], md_uses = []\<rparr>"

definition copyDef :: "'w ModuleDefinition \<Rightarrow> 'w ModuleDefinition" where
  "copyDef d = \<lparr>md_providers = md_providers d, md_loadCallbacks = md_loadCallbacks d,
     md_unloadCallbacks = md_unloadCallbacks d, md_uses = md_uses d\<rparr>"

section \<open>Argument parsing and provider registration\<close>

record ResolvedConfig =
  cfg_kind :: ProviderKind
  cfg_scope :: LifeCycleType
  cfg_mode :: ContextAppendType

record ParsedArgs =
  pa_entries :: "(string \<times> val) list"
  pa_config :: ResolvedConfig
  pa_isObjectForm :: bool

datatype default_kind = ForProvide | ForKind ProviderKind

definition isOpts :: "val \<Rightarrow> bool" where
  "isOpts arg = (case arg of
       VObj ob \<Rightarrow> is_string (get_prop ob ''scope'') \<or> is_string (get_prop ob ''kind'')
     | _ \<Rightarrow> False)"

text \<open>
  Reading the three options. \<^verbatim>\<open>opts?.x ?? d\<close> takes the default for
  \<^verbatim>\<open>undefined\<close> and \<^verbatim>\<open>null\<close>. The resolved scope is only ever compared with
  \<^verbatim>\<open>"local"\<close> and \<^verbatim>\<open>"global"\<close>, so every other value behaves as
  \<^verbatim>\<open>"scoped"\<close>.
\<close>

definition nullish :: "val \<Rightarrow> bool" where
  "nullish v \<longleftrightarrow> v = VUndefined \<or> v = VNull"

definition read_kind :: "val \<Rightarrow> ProviderKind \<Rightarrow> error + ProviderKind" where
  "read_kind v d = (if nullish v then Inr d
     else if v = VStr ''decorator'' then Inr Decorator
     else if v = VStr ''store'' then Inr Store
     else Inl (OutsideTypes ''kind''))"

definition read_scope :: "val \<Rightarrow> LifeCycleType" where
  "read_scope v = (if nullish v then Local
     else if v = VStr ''local'' then Local
     else if v = VStr ''global'' then Global
     else Scoped)"

definition read_mode :: "val \<Rightarrow> error + ContextAppendType" where
  "read_mode v = (if nullish v then Inr Append
     else if v = VStr ''append'' then Inr Append
     else if v = VStr ''override'' then Inr Override
     else Inl (OutsideTypes ''mode''))"

definition at_index :: "val list \<Rightarrow> nat \<Rightarrow> val" where
  "at_index args i = (if i < length args then args ! i else VUndefined)"

definition parseArgs :: "val list \<Rightarrow> default_kind \<Rightarrow> error + ParsedArgs" where
  "parseArgs args defaultKind =
     (let lastArg = (if args = [] then VUndefined else last args);
          hasOpts = isOpts lastArg
      in if defaultKind = ForProvide \<and> \<not> hasOpts then Inl ProvideRequiresOptions
         else
           (let opts = (case lastArg of VObj ob \<Rightarrow> (if hasOpts then ob else []) | _ \<Rightarrow> []);
                dk = (case defaultKind of ForProvide \<Rightarrow> Decorator | ForKind k \<Rightarrow> k)
            in (case read_kind (get_prop opts ''kind'') dk of
                  Inl e \<Rightarrow> Inl e
                | Inr kind \<Rightarrow>
                   (case read_mode (get_prop opts ''mode'') of
                      Inl e \<Rightarrow> Inl e
                    | Inr mode \<Rightarrow>
                       (let config = \<lparr>cfg_kind = kind,
                                      cfg_scope = read_scope (get_prop opts ''scope''),
                                      cfg_mode = mode\<rparr>;
                            argsWithoutOpts = (if hasOpts then butlast args else args);
                            a0 = at_index argsWithoutOpts 0
                        in (case a0 of
                              VStr key \<Rightarrow>
                                Inr \<lparr>pa_entries = [(key, at_index argsWithoutOpts 1)],
                                     pa_config = config, pa_isObjectForm = False\<rparr>
                            | _ \<Rightarrow>
                                (if truthy a0 \<and> is_object a0
                                 then Inr \<lparr>pa_entries = object_entries a0, pa_config = config,
                                           pa_isObjectForm = True\<rparr>
                                 else Inl InvalidArguments)))))))"

text \<open>
  \<^verbatim>\<open>#pushEntry(def, key, value, cfg, forceStatic)\<close>: \<open>own\<close> is
  \<^verbatim>\<open>this.#def.providers\<close>, the providers of the instance the builder method was
  called on, and \<open>d\<close> the copy being extended.
\<close>

definition pushEntry ::
  "ProviderEntry list \<Rightarrow> 'w ModuleDefinition \<Rightarrow> string \<Rightarrow> val \<Rightarrow> ResolvedConfig \<Rightarrow> bool
     \<Rightarrow> error + 'w ModuleDefinition" where
  "pushEntry own d key v cfg forceStatic =
     (if key = RESERVED_KEYS (cfg_kind cfg) then Inl (ReservedKey key (cfg_kind cfg))
      else if cfg_mode cfg = Append \<and> (\<exists>p \<in> set own. pe_kind p = cfg_kind cfg \<and> pe_key p = key)
      then Inl (AlreadyDefined (cfg_kind cfg) key)
      else
        let isExport = (cfg_scope cfg \<noteq> Local);
            isTransitive = (cfg_scope cfg = Global)
        in Inr (d\<lparr>md_providers := md_providers d @
                  [\<lparr>pe_kind = cfg_kind cfg, pe_key = key, pe_value = v, pe_export = isExport,
                    pe_transitive = isTransitive,
                    pe_isFactory = (if forceStatic then False else is_function v),
                    pe_mode = cfg_mode cfg\<rparr>]\<rparr>))"

fun pushEntries ::
  "ProviderEntry list \<Rightarrow> (string \<times> val) list \<Rightarrow> ResolvedConfig \<Rightarrow> bool \<Rightarrow> 'w ModuleDefinition
     \<Rightarrow> error + 'w ModuleDefinition" where
  "pushEntries own [] cfg fs d = Inr d"
| "pushEntries own ((key, v) # es) cfg fs d =
     (case pushEntry own d key v cfg fs of
        Inl e \<Rightarrow> Inl e
      | Inr d' \<Rightarrow> pushEntries own es cfg fs d')"

text \<open>
  \<^verbatim>\<open>#addProviders\<close> through \<^verbatim>\<open>#next\<close>, on the definition: the copy of
  \<^verbatim>\<open>this.#def\<close> with the parsed entries pushed. The three builder methods differ in
  the default kind only.
\<close>

definition addProviders :: "ParsedArgs \<Rightarrow> 'w ModuleDefinition \<Rightarrow> error + 'w ModuleDefinition" where
  "addProviders parsed this_def =
     pushEntries (md_providers this_def) (pa_entries parsed) (pa_config parsed)
       (pa_isObjectForm parsed) (copyDef this_def)"

definition with_args ::
  "default_kind \<Rightarrow> val list \<Rightarrow> 'w ModuleDefinition \<Rightarrow> error + 'w ModuleDefinition" where
  "with_args dk args this_def =
     (case parseArgs args dk of Inl e \<Rightarrow> Inl e | Inr parsed \<Rightarrow> addProviders parsed this_def)"

definition provide_def :: "val list \<Rightarrow> 'w ModuleDefinition \<Rightarrow> error + 'w ModuleDefinition" where
  "provide_def = with_args ForProvide"

definition decorate_def :: "val list \<Rightarrow> 'w ModuleDefinition \<Rightarrow> error + 'w ModuleDefinition" where
  "decorate_def = with_args (ForKind Decorator)"

definition state_def :: "val list \<Rightarrow> 'w ModuleDefinition \<Rightarrow> error + 'w ModuleDefinition" where
  "state_def = with_args (ForKind Store)"

section \<open>Runtime nodes\<close>

record ProviderOrigin =
  po_kind :: ProviderKind
  po_key :: string
  po_moduleName :: string
  po_isExported :: bool

type_synonym node_id = nat

type_synonym by_kind = "ProviderKind \<Rightarrow> obj"

type_synonym origins = "((ProviderKind \<times> string) \<times> ProviderOrigin) list"

text \<open>
  A runtime node is a mutable object referenced from its parents, so nodes live in a heap
  \<open>node_id \<Rightarrow> ModuleRuntimeContext\<close> and \<open>rt_children\<close> holds references. The key
  \<^verbatim>\<open>`${kind}:${key}`\<close> of the origin map is the pair of kind and key.
\<close>

record ModuleRuntimeContext =
  rt_name :: string
  rt_def :: def_id
  rt_initialized :: bool
  rt_providers :: by_kind
  rt_exportedProviders :: by_kind
  rt_propagatedProviders :: by_kind
  rt_providerOrigins :: origins
  rt_callbackCtx :: "ctx option"
  rt_children :: "node_id list"

type_synonym heap = "node_id \<Rightarrow> ModuleRuntimeContext"

type_synonym 'w defs = "def_id \<Rightarrow> 'w ModuleDefinition"

text \<open>
  A factory receives the flattened context when it resolves a decorator and the store
  object itself when it resolves a store entry. The functions of the program are
  interpreted by \<open>call\<close>: function number, argument, result or raised error.
\<close>

datatype factory_ctx = CtxObj ctx | KindObj obj

type_synonym calls = "nat \<Rightarrow> factory_ctx \<Rightarrow> error + val"

definition invoke :: "calls \<Rightarrow> val \<Rightarrow> factory_ctx \<Rightarrow> error + val" where
  "invoke call f arg = (case f of VFun n \<Rightarrow> call n arg | _ \<Rightarrow> Inl NotCallable)"

definition origin_name :: "origins \<Rightarrow> ProviderKind \<Rightarrow> string \<Rightarrow> string option" where
  "origin_name os kind key = map_option po_moduleName (map_of os (kind, key))"

section \<open>Provider resolution\<close>

definition applyEntry ::
  "calls \<Rightarrow> ProviderEntry \<Rightarrow> string \<Rightarrow> ModuleRuntimeContext \<Rightarrow> error + ModuleRuntimeContext" where
  "applyEntry call entry moduleName nd =
     (let kind = pe_kind entry; key = pe_key entry; mode = pe_mode entry;
          local = rt_providers nd
      in if mode = Append \<and> has_in key (local kind)
         then Inl (Collision kind key (origin_name (rt_providerOrigins nd) kind key))
         else
           (let factoryCtx = (if kind = Decorator
                              then CtxObj (mk_ctx (local Decorator) (local Store))
                              else KindObj (local kind))
            in (case (if pe_isFactory entry then invoke call (pe_value entry) factoryCtx
                      else Inr (pe_value entry)) of
                  Inl e \<Rightarrow> Inl e
                | Inr resolved \<Rightarrow>
                   (let exported1 = (if mode = Override
                          then (rt_exportedProviders nd)
                                 (kind := obj_delete key (rt_exportedProviders nd kind))
                          else rt_exportedProviders nd);
                        propagated1 = (if mode = Override
                          then (rt_propagatedProviders nd)
                                 (kind := obj_delete key (rt_propagatedProviders nd kind))
                          else rt_propagatedProviders nd);
                        exported2 = (if pe_export entry
                          then exported1(kind := obj_set key resolved (exported1 kind))
                          else exported1);
                        propagated2 = (if pe_export entry \<and> pe_transitive entry
                          then propagated1(kind := obj_set key resolved (propagated1 kind))
                          else propagated1)
                    in Inr (nd\<lparr>rt_providers := local(kind := obj_set key resolved (local kind)),
                              rt_exportedProviders := exported2,
                              rt_propagatedProviders := propagated2,
                              rt_providerOrigins :=
                                AList.update (kind, key)
                                  \<lparr>po_kind = kind, po_key = key, po_moduleName = moduleName,
                                    po_isExported = pe_export entry\<rparr>
                                  (rt_providerOrigins nd)\<rparr>)))))"

fun apply_entries ::
  "calls \<Rightarrow> string \<Rightarrow> ProviderEntry list \<Rightarrow> ModuleRuntimeContext
     \<Rightarrow> error + ModuleRuntimeContext" where
  "apply_entries call nm [] nd = Inr nd"
| "apply_entries call nm (e # es) nd =
     (case applyEntry call e nm nd of
        Inl err \<Rightarrow> Inl err
      | Inr nd' \<Rightarrow> apply_entries call nm es nd')"

text \<open>The import of one child's exported providers of one kind, entry by entry.\<close>

fun import_entries ::
  "ProviderKind \<Rightarrow> string \<Rightarrow> (string \<times> val) list \<Rightarrow> ModuleRuntimeContext
     \<Rightarrow> error + ModuleRuntimeContext" where
  "import_entries kind cname [] nd = Inr nd"
| "import_entries kind cname ((k, v) # es) nd =
     (if has_in k (rt_providers nd kind)
      then Inl (ImportCollision kind k (origin_name (rt_providerOrigins nd) kind k))
      else import_entries kind cname es
             (nd\<lparr>rt_providers := (rt_providers nd)(kind := obj_set k v (rt_providers nd kind)),
                 rt_providerOrigins :=
                   AList.update (kind, k)
                     \<lparr>po_kind = kind, po_key = k, po_moduleName = cname, po_isExported = True\<rparr>
                     (rt_providerOrigins nd)\<rparr>))"

fun import_kinds ::
  "ProviderKind list \<Rightarrow> ModuleRuntimeContext \<Rightarrow> ModuleRuntimeContext
     \<Rightarrow> error + ModuleRuntimeContext" where
  "import_kinds [] child nd = Inr nd"
| "import_kinds (kind # ks) child nd =
     (case import_entries kind (rt_name child) (rt_exportedProviders child kind) nd of
        Inl err \<Rightarrow> Inl err
      | Inr nd' \<Rightarrow> import_kinds ks child nd')"

fun propagate_kinds ::
  "ProviderKind list \<Rightarrow> ModuleRuntimeContext \<Rightarrow> ModuleRuntimeContext \<Rightarrow> ModuleRuntimeContext" where
  "propagate_kinds [] child nd = nd"
| "propagate_kinds (kind # ks) child nd =
     propagate_kinds ks child
       (nd\<lparr>rt_exportedProviders := (rt_exportedProviders nd)
              (kind := obj_assign (rt_exportedProviders nd kind) (rt_propagatedProviders child kind)),
           rt_propagatedProviders := (rt_propagatedProviders nd)
              (kind := obj_assign (rt_propagatedProviders nd kind)
                         (rt_propagatedProviders child kind))\<rparr>)"

definition import_child ::
  "ModuleRuntimeContext \<Rightarrow> UseEdge \<Rightarrow> ModuleRuntimeContext \<Rightarrow> error + ModuleRuntimeContext" where
  "import_child child edge nd =
     (case import_kinds PROVIDER_KINDS child nd of
        Inl err \<Rightarrow> Inl err
      | Inr nd' \<Rightarrow>
          Inr (if ue_transitive edge \<noteq> Some False
               then propagate_kinds PROVIDER_KINDS child nd' else nd'))"

text \<open>
  The loop over \<^verbatim>\<open>ctx.children[i]\<close> and \<^verbatim>\<open>def.uses[i]\<close>; an index without an
  edge is skipped. The child is read from the heap, or is the node being initialised if
  the node is its own child.
\<close>

fun import_children ::
  "heap \<Rightarrow> node_id \<Rightarrow> node_id list \<Rightarrow> UseEdge list \<Rightarrow> ModuleRuntimeContext
     \<Rightarrow> error + ModuleRuntimeContext" where
  "import_children h self [] es nd = Inr nd"
| "import_children h self (c # cs) [] nd = Inr nd"
| "import_children h self (c # cs) (e # es) nd =
     (case import_child (if c = self then nd else h c) e nd of
        Inl err \<Rightarrow> Inl err
      | Inr nd' \<Rightarrow> import_children h self cs es nd')"

definition initModule :: "calls \<Rightarrow> 'w defs \<Rightarrow> node_id \<Rightarrow> heap \<Rightarrow> error + heap" where
  "initModule call ds i h =
     (let nd = h i
      in if rt_initialized nd then Inr h
         else
           (case import_children h i (rt_children nd) (md_uses (ds (rt_def nd))) nd of
              Inl err \<Rightarrow> Inl err
            | Inr nd1 \<Rightarrow>
               (case apply_entries call (rt_name nd) (md_providers (ds (rt_def nd))) nd1 of
                  Inl err \<Rightarrow> Inl err
                | Inr nd2 \<Rightarrow>
                    Inr (h(i := nd2\<lparr>rt_callbackCtx :=
                                      Some (mk_ctx (rt_providers nd2 Decorator) (rt_providers nd2 Store)),
                                    rt_initialized := True\<rparr>)))))"

section \<open>The runtime tree\<close>

text \<open>
  Sequencing a state-passing computation that may not return over a list: the
  \<^verbatim>\<open>map\<close> of \<^verbatim>\<open>#buildTree\<close> over \<^verbatim>\<open>def.uses\<close> and the \<^verbatim>\<open>for\<close> loop of
  \<^verbatim>\<open>visit\<close>.
\<close>

fun mapM_st :: "('a \<Rightarrow> 's \<Rightarrow> ('b \<times> 's) option) \<Rightarrow> 'a list \<Rightarrow> 's \<Rightarrow> ('b list \<times> 's) option" where
  "mapM_st f [] s = Some ([], s)"
| "mapM_st f (x # xs) s =
     Option.bind (f x s) (\<lambda>r.
       Option.bind (mapM_st f xs (snd r)) (\<lambda>rs. Some (fst r # fst rs, snd rs)))"

fun foldM_st :: "('a \<Rightarrow> 's \<Rightarrow> 's option) \<Rightarrow> 'a list \<Rightarrow> 's \<Rightarrow> 's option" where
  "foldM_st f [] s = Some s"
| "foldM_st f (x # xs) s = Option.bind (f x s) (\<lambda>s'. foldM_st f xs s')"

lemma mapM_st_mono [partial_function_mono]:
  assumes "\<And>x s. mono_option (\<lambda>f. F f x s)"
  shows "mono_option (\<lambda>f. mapM_st (F f) xs s)"
proof (induction xs arbitrary: s)
  case Nil
  show ?case by (simp add: option.const_mono)
next
  case (Cons x xs)
  show ?case
    unfolding mapM_st.simps
    by (intro bind_mono assms Cons option.const_mono)
qed

lemma foldM_st_mono [partial_function_mono]:
  assumes "\<And>x s. mono_option (\<lambda>f. F f x s)"
  shows "mono_option (\<lambda>f. foldM_st (F f) xs s)"
proof (induction xs arbitrary: s)
  case Nil
  show ?case by (simp add: option.const_mono)
next
  case (Cons x xs)
  show ?case
    unfolding foldM_st.simps
    by (intro bind_mono assms Cons)
qed

text \<open>
  The cache is the \<^verbatim>\<open>WeakMap\<close> from definitions to \<^verbatim>\<open>Map\<close>s from scope identities
  to nodes. Building threads the cache, the heap and the next free node reference; a
  recursion that does not return has the value \<open>None\<close>.
\<close>

type_synonym cache = "def_id \<Rightarrow> (cache_key \<Rightarrow> node_id option) option"

record build_state =
  bs_cache :: cache
  bs_nodes :: heap
  bs_next :: node_id

definition cache_get :: "cache \<Rightarrow> def_id \<Rightarrow> cache_key \<Rightarrow> node_id option" where
  "cache_get c d k = (case c d of None \<Rightarrow> None | Some byScope \<Rightarrow> byScope k)"

definition edge_key :: "UseEdge \<Rightarrow> cache_key" where
  "edge_key u = EdgeKey (case ue_scopeId u of None \<Rightarrow> GLOBAL_SCOPE | Some s \<Rightarrow> s)"

definition new_node :: "string \<Rightarrow> def_id \<Rightarrow> node_id list \<Rightarrow> ModuleRuntimeContext" where
  "new_node nm d cs =
     \<lparr>rt_name = nm, rt_def = d, rt_initialized = False,
      rt_providers = (\<lambda>_. []), rt_exportedProviders = (\<lambda>_. []),
      rt_propagatedProviders = (\<lambda>_. []), rt_providerOrigins = [],
      rt_callbackCtx = None, rt_children = cs\<rparr>"

definition ensure_byScope :: "def_id \<Rightarrow> build_state \<Rightarrow> build_state" where
  "ensure_byScope d st =
     (if bs_cache st d = None then st\<lparr>bs_cache := (bs_cache st)(d \<mapsto> Map.empty)\<rparr> else st)"

definition store_node ::
  "string \<Rightarrow> def_id \<Rightarrow> cache_key \<Rightarrow> node_id list \<Rightarrow> build_state \<Rightarrow> node_id \<times> build_state" where
  "store_node nm d scopeId cs st =
     (let i = bs_next st;
          byScope = (case bs_cache st d of None \<Rightarrow> Map.empty | Some m \<Rightarrow> m)
      in (i, \<lparr>bs_cache = (bs_cache st)(d \<mapsto> byScope(scopeId \<mapsto> i)),
              bs_nodes = (bs_nodes st)(i := new_node nm d cs),
              bs_next = Suc i\<rparr>))"

partial_function (option) buildTree ::
  "'w defs \<Rightarrow> string \<Rightarrow> def_id \<Rightarrow> cache_key \<Rightarrow> build_state \<Rightarrow> (node_id \<times> build_state) option" where
  "buildTree ds nm d scopeId st =
     (if cache_get (bs_cache st) d scopeId \<noteq> None
      then Some (the (cache_get (bs_cache st) d scopeId), st)
      else Option.bind
             (mapM_st (\<lambda>u s. buildTree ds (ue_name u) (ue_def u) (edge_key u) s)
                (md_uses (ds d)) (ensure_byScope d st))
             (\<lambda>r. Some (store_node nm d scopeId (fst r) (snd r))))"

partial_function (option) visit ::
  "heap \<Rightarrow> node_id \<Rightarrow> node_id list \<times> node_id set \<Rightarrow> (node_id list \<times> node_id set) option" where
  "visit h node st =
     (if node \<in> snd st then Some st
      else Option.bind
             (foldM_st (\<lambda>c s. visit h c s) (rt_children (h node)) (fst st, insert node (snd st)))
             (\<lambda>st'. Some (fst st' @ [node], snd st')))"

definition lifecycleOrder :: "heap \<Rightarrow> node_id \<Rightarrow> node_id list option" where
  "lifecycleOrder h root = map_option fst (visit h root ([], {}))"

section \<open>Module instances and the lifecycle\<close>

text \<open>
  The private state of an \<^verbatim>\<open>Aether\<close> instance. \<^verbatim>\<open>#runtimeTree\<close> is the reference
  to the root node together with the heap of the nodes built by the \<^verbatim>\<open>start()\<close>
  call that set it: those nodes are reachable from this instance only. Extension
  implementations are named by numbers.
\<close>

record tree =
  t_root :: node_id
  t_nodes :: heap

record Aether =
  a_name :: string
  a_def :: def_id
  a_extensionImpls :: "(string \<times> nat) list"
  a_runtimeTree :: "tree option"
  a_running :: bool

definition isRunning :: "Aether \<Rightarrow> bool" where
  "isRunning this = a_running this"

definition get_context :: "Aether \<Rightarrow> error + ctx option" where
  "get_context this =
     (case a_runtimeTree this of
        Some t \<Rightarrow> if a_running this then Inr (rt_callbackCtx (t_nodes t (t_root t)))
                  else Inl (NotStarted (a_name this))
      | None \<Rightarrow> Inl (NotStarted (a_name this)))"

text \<open>
  Awaiting the callbacks of one node in sequence: the first one that raises ends the
  sequence, and what it did to the world before raising stays done.
\<close>

fun run_callbacks :: "'w callback list \<Rightarrow> ctx option \<Rightarrow> 'w \<Rightarrow> 'w \<times> error option" where
  "run_callbacks [] c w = (w, None)"
| "run_callbacks (cb # cbs) c w =
     (case cb c w of
        Inl e \<Rightarrow> (w, Some e)
      | Inr w' \<Rightarrow> run_callbacks cbs c w')"

fun run_load ::
  "calls \<Rightarrow> 'w defs \<Rightarrow> node_id list \<Rightarrow> heap \<Rightarrow> 'w \<Rightarrow> heap \<times> 'w \<times> error option" where
  "run_load call ds [] h w = (h, w, None)"
| "run_load call ds (i # rest) h w =
     (case initModule call ds i h of
        Inl e \<Rightarrow> (h, w, Some e)
      | Inr h' \<Rightarrow>
         (case run_callbacks (md_loadCallbacks (ds (rt_def (h' i)))) (rt_callbackCtx (h' i)) w of
            (w', Some e) \<Rightarrow> (h', w', Some e)
          | (w', None) \<Rightarrow> run_load call ds rest h' w'))"

fun run_unload :: "'w defs \<Rightarrow> node_id list \<Rightarrow> heap \<Rightarrow> 'w \<Rightarrow> 'w \<times> error option" where
  "run_unload ds [] h w = (w, None)"
| "run_unload ds (i # rest) h w =
     (case run_callbacks (md_unloadCallbacks (ds (rt_def (h i)))) (rt_callbackCtx (h i)) w of
        (w', Some e) \<Rightarrow> (w', Some e)
      | (w', None) \<Rightarrow> run_unload ds rest h w')"

definition empty_build :: build_state where
  "empty_build = \<lparr>bs_cache = (\<lambda>_. None), bs_nodes = (\<lambda>_. new_node [] 0 []), bs_next = 0\<rparr>"

text \<open>
  \<^verbatim>\<open>start()\<close> and \<^verbatim>\<open>stop()\<close> return the instance, the world and the error the
  returned promise is rejected with, if any; \<open>None\<close> as a whole means that the call does
  not return. The heap cells beyond the built nodes are never read.
\<close>

definition start ::
  "calls \<Rightarrow> 'w defs \<Rightarrow> Aether \<Rightarrow> 'w \<Rightarrow> (Aether \<times> 'w \<times> error option) option" where
  "start call ds this w =
     (if a_running this then Some (this, w, None)
      else Option.bind (buildTree ds (a_name this) (a_def this) RootKey empty_build) (\<lambda>built.
           Option.bind (lifecycleOrder (bs_nodes (snd built)) (fst built)) (\<lambda>order.
             (case run_load call ds order (bs_nodes (snd built)) w of
                (h', w', None) \<Rightarrow>
                  Some (this\<lparr>a_runtimeTree := Some \<lparr>t_root = fst built, t_nodes = h'\<rparr>,
                             a_running := True\<rparr>, w', None)
              | (h', w', Some e) \<Rightarrow>
                  Some (this\<lparr>a_runtimeTree := None, a_running := False\<rparr>, w', Some e)))))"

definition stop :: "'w defs \<Rightarrow> Aether \<Rightarrow> 'w \<Rightarrow> (Aether \<times> 'w \<times> error option) option" where
  "stop ds this w =
     (case a_runtimeTree this of
        None \<Rightarrow> Some (this, w, None)
      | Some t \<Rightarrow>
          if \<not> a_running this then Some (this, w, None)
          else Option.bind (lifecycleOrder (t_nodes t) (t_root t)) (\<lambda>order.
                 (case run_unload ds (rev order) (t_nodes t) w of
                    (w', r) \<Rightarrow> Some (this\<lparr>a_running := False, a_runtimeTree := None\<rparr>, w', r))))"

section \<open>The builder on instances\<close>

text \<open>
  Builder methods create new definitions and new instances, and \<^verbatim>\<open>start()\<close> and
  \<^verbatim>\<open>stop()\<close> write the private fields of their receiver. The program state holds the
  store of definitions, the store of instances, the counter of fresh symbols and the
  world.
\<close>

type_synonym inst_id = nat

record 'w system =
  sys_defs :: "'w defs"
  sys_next_def :: def_id
  sys_objects :: "inst_id \<Rightarrow> Aether"
  sys_next_object :: inst_id
  sys_next_sym :: nat
  sys_world :: "'w"

definition construct ::
  "string \<Rightarrow> def_id \<Rightarrow> (string \<times> nat) list \<Rightarrow> 'w system \<Rightarrow> inst_id \<times> 'w system" where
  "construct nm d exts sys =
     (sys_next_object sys,
      sys\<lparr>sys_objects := (sys_objects sys)(sys_next_object sys :=
              \<lparr>a_name = nm, a_def = d, a_extensionImpls = exts, a_runtimeTree = None,
               a_running = False\<rparr>),
          sys_next_object := Suc (sys_next_object sys)\<rparr>)"

definition alloc_def :: "'w ModuleDefinition \<Rightarrow> 'w system \<Rightarrow> def_id \<times> 'w system" where
  "alloc_def d sys =
     (sys_next_def sys,
      sys\<lparr>sys_defs := (sys_defs sys)(sys_next_def sys := d),
          sys_next_def := Suc (sys_next_def sys)\<rparr>)"

text \<open>\<^verbatim>\<open>new Aether(name)\<close>: a fresh empty definition and a fresh instance.\<close>

definition new_Aether :: "string \<Rightarrow> 'w system \<Rightarrow> inst_id \<times> 'w system" where
  "new_Aether nm sys =
     (case alloc_def emptyDef sys of (d, sys') \<Rightarrow> construct nm d [] sys')"

text \<open>
  \<^verbatim>\<open>#next(mutate)\<close>: \<open>mutate\<close> maps \<^verbatim>\<open>this.#def\<close> to the mutated copy or to the
  error it raises.
\<close>

definition next_module ::
  "('w ModuleDefinition \<Rightarrow> error + 'w ModuleDefinition) \<Rightarrow> inst_id \<Rightarrow> 'w system
     \<Rightarrow> error + inst_id \<times> 'w system" where
  "next_module mutate this sys =
     (let me = sys_objects sys this
      in case mutate (sys_defs sys (a_def me)) of
           Inl e \<Rightarrow> Inl e
         | Inr nextDef \<Rightarrow>
             (case alloc_def nextDef sys of
                (d, sys') \<Rightarrow> Inr (construct (a_name me) d (a_extensionImpls me) sys')))"

definition onLoad :: "'w callback \<Rightarrow> inst_id \<Rightarrow> 'w system \<Rightarrow> error + inst_id \<times> 'w system" where
  "onLoad cb = next_module (\<lambda>d. Inr ((copyDef d)\<lparr>md_loadCallbacks := md_loadCallbacks d @ [cb]\<rparr>))"

definition onUnload :: "'w callback \<Rightarrow> inst_id \<Rightarrow> 'w system \<Rightarrow> error + inst_id \<times> 'w system" where
  "onUnload cb =
     next_module (\<lambda>d. Inr ((copyDef d)\<lparr>md_unloadCallbacks := md_unloadCallbacks d @ [cb]\<rparr>))"

definition provide :: "val list \<Rightarrow> inst_id \<Rightarrow> 'w system \<Rightarrow> error + inst_id \<times> 'w system" where
  "provide args = next_module (provide_def args)"

definition decorate :: "val list \<Rightarrow> inst_id \<Rightarrow> 'w system \<Rightarrow> error + inst_id \<times> 'w system" where
  "decorate args = next_module (decorate_def args)"

definition state :: "val list \<Rightarrow> inst_id \<Rightarrow> 'w system \<Rightarrow> error + inst_id \<times> 'w system" where
  "state args = next_module (state_def args)"

text \<open>
  \<^verbatim>\<open>use(plugin, options)\<close> for a plugin that is a module instance. The scope option is
  a string, a symbol of the caller, or the registered symbol
  \<^verbatim>\<open>Symbol.for("aether:use:global")\<close>, which is the global sentinel itself.
\<close>

datatype scope = ScopeStr string | ScopeSym nat | ScopeGlobalSym

datatype use_as = AsGlobal | AsScoped

record UseOptions =
  uo_scope :: "scope option"
  uo_as :: "use_as option"

definition useScopeId :: "string \<Rightarrow> scope option \<Rightarrow> nat \<Rightarrow> scope_id \<times> nat" where
  "useScopeId pluginName sc fresh =
     (case sc of
        None \<Rightarrow> (GLOBAL_SCOPE, fresh)
      | Some ScopeGlobalSym \<Rightarrow> (GLOBAL_SCOPE, fresh)
      | Some (ScopeSym n) \<Rightarrow> (UserSym n, fresh)
      | Some (ScopeStr s) \<Rightarrow>
          if s = [] \<or> s = ''global'' then (GLOBAL_SCOPE, fresh)
          else if s = ''local'' then (Sym fresh, Suc fresh)
          else (Str s, fresh))"

fun merge_extensions ::
  "string \<Rightarrow> string \<Rightarrow> (string \<times> nat) list \<Rightarrow> (string \<times> nat) list
     \<Rightarrow> error + (string \<times> nat) list" where
  "merge_extensions me pl [] merged = Inr merged"
| "merge_extensions me pl ((nm, impl) # rest) merged =
     (if nm \<in> fst ` set merged then Inl (ExtensionCollision nm me pl)
      else merge_extensions me pl rest (AList.update nm impl merged))"

definition use ::
  "inst_id \<Rightarrow> UseOptions option \<Rightarrow> inst_id \<Rightarrow> 'w system \<Rightarrow> error + inst_id \<times> 'w system" where
  "use plugin options this sys =
     (let me = sys_objects sys this;
          pl = sys_objects sys plugin;
          pluginDef = a_def pl;
          sid = useScopeId (a_name pl) (case options of None \<Rightarrow> None | Some opts \<Rightarrow> uo_scope opts)
                  (sys_next_sym sys);
          sys1 = sys\<lparr>sys_next_sym := snd sid\<rparr>;
          scopeId = fst sid
      in if \<exists>u \<in> set (md_uses (sys_defs sys (a_def me))).
               ue_def u = pluginDef \<and> ue_scopeId u = Some scopeId
         then Inr (this, sys1)
         else
           (let d = sys_defs sys (a_def me);
                nextDef = (copyDef d)\<lparr>md_uses := md_uses d @
                   [\<lparr>ue_name = a_name pl, ue_def = pluginDef, ue_scopeId = Some scopeId,
                     ue_transitive =
                       Some ((case options of None \<Rightarrow> None | Some opts \<Rightarrow> uo_as opts) \<noteq> Some AsScoped)\<rparr>]\<rparr>
            in (case merge_extensions (a_name me) (a_name pl) (a_extensionImpls pl)
                       (a_extensionImpls me) of
                  Inl e \<Rightarrow> Inl e
                | Inr merged \<Rightarrow>
                    (case alloc_def nextDef sys1 of
                       (dn, sys2) \<Rightarrow> Inr (construct (a_name me) dn merged sys2)))))"

text \<open>
  The lifecycle methods on the stored instance: the receiver's fields and the world are
  written, nothing else.
\<close>

definition obj_start ::
  "calls \<Rightarrow> inst_id \<Rightarrow> 'w system \<Rightarrow> ('w system \<times> error option) option" where
  "obj_start call this sys =
     map_option
       (\<lambda>(me', w', r). (sys\<lparr>sys_objects := (sys_objects sys)(this := me'), sys_world := w'\<rparr>, r))
       (start call (sys_defs sys) (sys_objects sys this) (sys_world sys))"

definition obj_stop :: "inst_id \<Rightarrow> 'w system \<Rightarrow> ('w system \<times> error option) option" where
  "obj_stop this sys =
     map_option
       (\<lambda>(me', w', r). (sys\<lparr>sys_objects := (sys_objects sys)(this := me'), sys_world := w'\<rparr>, r))
       (stop (sys_defs sys) (sys_objects sys this) (sys_world sys))"

section \<open>Auxiliary notions for the statements\<close>

text \<open>
  The two private fields of an instance are written together, so on every instance the
  program can reach the running flag is set exactly when a tree is held.
\<close>

definition coherent :: "Aether \<Rightarrow> bool" where
  "coherent a \<longleftrightarrow> (a_running a \<longleftrightarrow> a_runtimeTree a \<noteq> None)"

text \<open>An initialised node holds the context made from its own provider maps.\<close>

definition ctx_ok :: "heap \<Rightarrow> bool" where
  "ctx_ok h \<longleftrightarrow> (\<forall>i. rt_initialized (h i) \<longrightarrow>
      rt_callbackCtx (h i) =
        Some (mk_ctx (rt_providers (h i) Decorator) (rt_providers (h i) Store)))"

subsection \<open>A logger and an application\<close>

text \<open>
  The modules of \<^verbatim>\<open>examples/logger.ts\<close> and of the README, with a world that is the
  list of the lines logged so far. The application's load callback raises unless the
  world already holds the line \<open>ready\<close>.
\<close>

definition log_cb :: "string \<Rightarrow> string list callback" where
  "log_cb msg = (\<lambda>c w. Inr (w @ [msg]))"

definition ready_cb :: "string list callback" where
  "ready_cb = (\<lambda>c w. if ''ready'' \<in> set w then Inr (w @ [''App starting''])
                      else Inl (Thrown (VStr ''not ready'')))"

definition demo_call :: calls where
  "demo_call n arg = (if n = 0 then Inr (VRef 1) else Inl NotCallable)"

definition logger_def :: "string list ModuleDefinition" where
  "logger_def =
     \<lparr>md_providers =
        [\<lparr>pe_kind = Decorator, pe_key = ''logLevel'', pe_value = VStr ''info'', pe_export = False,
          pe_transitive = False, pe_isFactory = False, pe_mode = Append\<rparr>,
         \<lparr>pe_kind = Decorator, pe_key = ''log'', pe_value = VFun 0, pe_export = True,
          pe_transitive = False, pe_isFactory = True, pe_mode = Append\<rparr>],
      md_loadCallbacks = [log_cb ''Logger initialized''],
      md_unloadCallbacks = [],
      md_uses = []\<rparr>"

definition app_def :: "string list ModuleDefinition" where
  "app_def =
     \<lparr>md_providers =
        [\<lparr>pe_kind = Decorator, pe_key = ''port'', pe_value = VNum 3000, pe_export = True,
          pe_transitive = True, pe_isFactory = False, pe_mode = Append\<rparr>],
      md_loadCallbacks = [ready_cb],
      md_unloadCallbacks = [log_cb ''App stopping''],
      md_uses = [\<lparr>ue_name = ''logger'', ue_def = 0, ue_scopeId = Some GLOBAL_SCOPE,
                  ue_transitive = Some True\<rparr>]\<rparr>"

definition demo_defs :: "string list defs" where
  "demo_defs d = (if d = 0 then logger_def else if d = 1 then app_def else emptyDef)"

definition demo_app :: Aether where
  "demo_app = \<lparr>a_name = ''app'', a_def = 1, a_extensionImpls = [], a_runtimeTree = None,
     a_running = False\<rparr>"

text \<open>
  A program state holding the two definitions, an empty definition, and one instance of
  each: the logger, the application and a bare module \<open>root\<close>.
\<close>

definition demo_sys :: "string list system" where
  "demo_sys =
     \<lparr>sys_defs = demo_defs, sys_next_def = 3,
      sys_objects = (\<lambda>i. if i = 0
         then \<lparr>a_name = ''logger'', a_def = 0, a_extensionImpls = [], a_runtimeTree = None,
               a_running = False\<rparr>
         else if i = 1 then demo_app
         else \<lparr>a_name = ''root'', a_def = 2, a_extensionImpls = [], a_runtimeTree = None,
               a_running = False\<rparr>),
      sys_next_object = 3, sys_next_sym = 0, sys_world = []\<rparr>"

subsection \<open>A single module\<close>

text \<open>
  One instance whose definition is the only one of the store, and a program in which the
  function number 7 returns 42 whatever it is given.
\<close>

definition solo :: Aether where
  "solo = \<lparr>a_name = ''m'', a_def = 0, a_extensionImpls = [], a_runtimeTree = None,
     a_running = False\<rparr>"

definition answer_call :: calls where
  "answer_call n arg = (if n = 7 then Inr (VNum 42) else Inl NotCallable)"

text \<open>\<^verbatim>\<open>context.store[key]\<close> and \<^verbatim>\<open>context.decorator[key]\<close>, read as own properties.\<close>

definition ctx_lookup :: "ProviderKind \<Rightarrow> string \<Rightarrow> ctx \<Rightarrow> val option" where
  "ctx_lookup kind k c =
     (case map_of c (RESERVED_KEYS kind) of
        Some (PObj ob) \<Rightarrow> map_of ob k
      | _ \<Rightarrow> None)"

subsection \<open>Acyclic definition graphs and well-formed build states\<close>

text \<open>
  The builder can only add edges to definitions that exist already, so the definitions a
  program composes form an acyclic graph: on a set \<open>D\<close> of definitions closed under
  edges, a rank decreases along every edge.
\<close>

definition ranked :: "'w defs \<Rightarrow> (def_id \<Rightarrow> nat) \<Rightarrow> def_id set \<Rightarrow> bool" where
  "ranked ds rk D \<longleftrightarrow>
     (\<forall>d \<in> D. \<forall>u \<in> set (md_uses (ds d)). ue_def u \<in> D \<and> rk (ue_def u) < rk d)"

text \<open>
  What holds of the cache and the heap between two calls of the tree builder: children
  are older than their parents; a cached node exists and instantiates the definition it
  is cached under; nodes are as \<open>new_node\<close> made them; the children of a node are the
  nodes cached for the edges of its definition; every node is cached, under one pair of
  definition and scope identity only.
\<close>

definition wf_build :: "'w defs \<Rightarrow> build_state \<Rightarrow> bool" where
  "wf_build ds st \<longleftrightarrow>
     (\<forall>i < bs_next st. \<forall>c \<in> set (rt_children (bs_nodes st i)). c < i) \<and>
     (\<forall>d k i. cache_get (bs_cache st) d k = Some i \<longrightarrow>
        i < bs_next st \<and> rt_def (bs_nodes st i) = d) \<and>
     (\<forall>i < bs_next st. bs_nodes st i =
        new_node (rt_name (bs_nodes st i)) (rt_def (bs_nodes st i)) (rt_children (bs_nodes st i))) \<and>
     (\<forall>i < bs_next st.
        map (\<lambda>u. cache_get (bs_cache st) (ue_def u) (edge_key u))
          (md_uses (ds (rt_def (bs_nodes st i)))) = map Some (rt_children (bs_nodes st i))) \<and>
     (\<forall>i < bs_next st. \<exists>k. cache_get (bs_cache st) (rt_def (bs_nodes st i)) k = Some i) \<and>
     (\<forall>d k d' k' i. cache_get (bs_cache st) d k = Some i \<and> cache_get (bs_cache st) d' k' = Some i
        \<longrightarrow> d = d' \<and> k = k')"


definition grows :: "build_state \<Rightarrow> build_state \<Rightarrow> bool" where
  "grows st st' \<longleftrightarrow>
     bs_next st \<le> bs_next st' \<and>
     (\<forall>i < bs_next st. bs_nodes st' i = bs_nodes st i) \<and>
     (\<forall>d k i. cache_get (bs_cache st) d k = Some i \<longrightarrow> cache_get (bs_cache st') d k = Some i)"

text \<open>
  The traversal of \<^verbatim>\<open>#lifecycleOrder\<close> follows the builder: a traversal \<open>f\<close> started
  where the nodes older than the build state \<open>st\<close> are visited appends the nodes built
  between \<open>st\<close> and \<open>st'\<close>, in the order of their creation. \<open>X\<close> holds the nodes
  still being visited, which are younger.
\<close>

definition visits ::
  "build_state \<Rightarrow> build_state
     \<Rightarrow> (heap \<Rightarrow> node_id list \<times> node_id set \<Rightarrow> (node_id list \<times> node_id set) option) \<Rightarrow> bool" where
  "visits st st' f \<longleftrightarrow>
     (\<forall>H ord X.
        (\<forall>i < bs_next st'. rt_children (H i) = rt_children (bs_nodes st' i)) \<and>
        (\<forall>x \<in> X. bs_next st' \<le> x) \<longrightarrow>
        f H (ord, {0..<bs_next st} \<union> X)
          = Some (ord @ [bs_next st..<bs_next st'], {0..<bs_next st'} \<union> X))"

definition built_ok ::
  "'w defs \<Rightarrow> (def_id \<Rightarrow> nat) \<Rightarrow> def_id \<Rightarrow> cache_key \<Rightarrow> build_state \<Rightarrow> node_id
     \<Rightarrow> build_state \<Rightarrow> bool" where
  "built_ok ds rk d k st i st' \<longleftrightarrow>
     wf_build ds st' \<and> grows st st' \<and> cache_get (bs_cache st') d k = Some i \<and>
     (\<forall>d' k'. rk d < rk d' \<longrightarrow> cache_get (bs_cache st') d' k' = cache_get (bs_cache st) d' k') \<and>
     visits st st' (\<lambda>H. visit H i)"

text \<open>Initialisation writes the provider maps of a node, not its place in the tree.\<close>

definition same_shape :: "ModuleRuntimeContext \<Rightarrow> ModuleRuntimeContext \<Rightarrow> bool" where
  "same_shape nd nd' \<longleftrightarrow>
     rt_children nd' = rt_children nd \<and> rt_def nd' = rt_def nd \<and> rt_name nd' = rt_name nd"

subsection \<open>A definition that uses itself\<close>


subsection \<open>A tower of four modules\<close>

text \<open>
  \<open>top\<close> uses \<open>mid\<close>, \<open>mid\<close> uses \<open>low\<close>, \<open>low\<close> uses \<open>base\<close>, each with
  the default options of \<^verbatim>\<open>use\<close>. \<open>base\<close> declares a global store entry, a scoped
  decorator and a local decorator. Every module logs its name when loaded and unloaded.
\<close>

definition edge_to :: "string \<Rightarrow> def_id \<Rightarrow> UseEdge" where
  "edge_to nm d =
     \<lparr>ue_name = nm, ue_def = d, ue_scopeId = Some GLOBAL_SCOPE, ue_transitive = Some True\<rparr>"

definition level_def :: "string \<Rightarrow> ProviderEntry list \<Rightarrow> UseEdge list \<Rightarrow> string list ModuleDefinition" where
  "level_def nm ps us =
     \<lparr>md_providers = ps, md_loadCallbacks = [log_cb nm],
      md_unloadCallbacks = [log_cb (nm @ '' down'')], md_uses = us\<rparr>"

definition base_providers :: "ProviderEntry list" where
  "base_providers =
     [\<lparr>pe_kind = Store, pe_key = ''conn'', pe_value = VRef 5, pe_export = True,
       pe_transitive = True, pe_isFactory = False, pe_mode = Append\<rparr>,
      \<lparr>pe_kind = Decorator, pe_key = ''ping'', pe_value = VNum 2, pe_export = True,
       pe_transitive = False, pe_isFactory = False, pe_mode = Append\<rparr>,
      \<lparr>pe_kind = Decorator, pe_key = ''secret'', pe_value = VNum 3, pe_export = False,
       pe_transitive = False, pe_isFactory = False, pe_mode = Append\<rparr>]"

definition tower_defs :: "string list defs" where
  "tower_defs d =
     (if d = 0 then level_def ''base'' base_providers []
      else if d = 1 then level_def ''low'' [] [edge_to ''base'' 0]
      else if d = 2 then level_def ''mid'' [] [edge_to ''low'' 1]
      else if d = 3 then level_def ''top'' [] [edge_to ''mid'' 2]
      else emptyDef)"

definition instance_of :: "string \<Rightarrow> def_id \<Rightarrow> Aether" where
  "instance_of nm d =
     \<lparr>a_name = nm, a_def = d, a_extensionImpls = [], a_runtimeTree = None, a_running = False\<rparr>"

subsection \<open>The provider maps of a node\<close>

text \<open>
  \<^verbatim>\<open>providers[kind][key]\<close>, \<^verbatim>\<open>exportedProviders[kind][key]\<close> and
  \<^verbatim>\<open>propagatedProviders[kind][key]\<close>, read as own properties.
\<close>

definition look :: "by_kind \<Rightarrow> ProviderKind \<Rightarrow> string \<Rightarrow> val option" where
  "look m kd k = map_of (m kd) k"

text \<open>
  The body of \<^verbatim>\<open>#initModule\<close> on a node that is not initialised, as a function of
  the node: the imports from its children, its own entries, then the callback context.
\<close>

definition init_result ::
  "calls \<Rightarrow> 'w defs \<Rightarrow> heap \<Rightarrow> node_id \<Rightarrow> ModuleRuntimeContext \<Rightarrow> error + ModuleRuntimeContext" where
  "init_result call ds h i nd =
     (case import_children h i (rt_children nd) (md_uses (ds (rt_def nd))) nd of
        Inl err \<Rightarrow> Inl err
      | Inr nd1 \<Rightarrow>
         (case apply_entries call (rt_name nd) (md_providers (ds (rt_def nd))) nd1 of
            Inl err \<Rightarrow> Inl err
          | Inr nd2 \<Rightarrow>
              Inr (nd2\<lparr>rt_callbackCtx :=
                         Some (mk_ctx (rt_providers nd2 Decorator) (rt_providers nd2 Store)),
                       rt_initialized := True\<rparr>)))"

text \<open>
  Node \<open>i\<close> of the heap \<open>h\<close> is what initialisation makes of the node the builder
  stored in \<open>h0\<close>, reading the children from \<open>h\<close>.
\<close>

definition settled :: "calls \<Rightarrow> 'w defs \<Rightarrow> heap \<Rightarrow> heap \<Rightarrow> node_id \<Rightarrow> bool" where
  "settled call ds h0 h i \<longleftrightarrow> init_result call ds h i (h0 i) = Inr (h i)"

text \<open>
  An object of the engine has no key twice and no own key \<^verbatim>\<open>__proto__\<close> (an
  assignment to it does not make one); this holds of the three provider maps of a node.
\<close>

definition ok_obj :: "obj \<Rightarrow> bool" where
  "ok_obj ob \<longleftrightarrow> distinct (map fst ob) \<and> map_of ob ''__proto__'' = None"

definition maps_ok :: "ModuleRuntimeContext \<Rightarrow> bool" where
  "maps_ok nd \<longleftrightarrow>
     (\<forall>kd. ok_obj (rt_providers nd kd) \<and> ok_obj (rt_exportedProviders nd kd) \<and>
           ok_obj (rt_propagatedProviders nd kd))"

text \<open>What a node propagates it exports, and what it exports it holds.\<close>

definition nested :: "ModuleRuntimeContext \<Rightarrow> bool" where
  "nested nd \<longleftrightarrow>
     (\<forall>kd k. (look (rt_propagatedProviders nd) kd k \<noteq> None
                \<longrightarrow> look (rt_exportedProviders nd) kd k \<noteq> None) \<and>
             (look (rt_exportedProviders nd) kd k \<noteq> None
                \<longrightarrow> look (rt_providers nd) kd k \<noteq> None))"

text \<open>
  The pairs of definition and scope identity the builder is called with: the root
  definition under the root key, and the target of an edge under the scope identity of
  the edge.
\<close>

definition keys_ok :: "'w defs \<Rightarrow> def_id \<Rightarrow> def_id \<Rightarrow> cache_key \<Rightarrow> bool" where
  "keys_ok ds r0 d k \<longleftrightarrow>
     (k = RootKey \<and> d = r0) \<or> (\<exists>d'. \<exists>u \<in> set (md_uses (ds d')). ue_def u = d \<and> edge_key u = k)"

definition cache_ok :: "'w defs \<Rightarrow> def_id \<Rightarrow> build_state \<Rightarrow> bool" where
  "cache_ok ds r0 st \<longleftrightarrow> (\<forall>d k i. cache_get (bs_cache st) d k = Some i \<longrightarrow> keys_ok ds r0 d k)"

text \<open>
  The load callbacks of the nodes of a list, each awaited with the context its node has
  in the heap \<open>h\<close>: the callbacks that the loop of \<^verbatim>\<open>start()\<close> runs, without the
  initialisation between them.
\<close>

fun run_loaded :: "'w defs \<Rightarrow> node_id list \<Rightarrow> heap \<Rightarrow> 'w \<Rightarrow> 'w \<times> error option" where
  "run_loaded ds [] h w = (w, None)"
| "run_loaded ds (i # rest) h w =
     (case run_callbacks (md_loadCallbacks (ds (rt_def (h i)))) (rt_callbackCtx (h i)) w of
        (w', Some e) \<Rightarrow> (w', Some e)
      | (w', None) \<Rightarrow> run_loaded ds rest h w')"

text \<open>
  Edge \<open>j\<close> of the definition of node \<open>p\<close> leads to the definition \<open>S\<close> with
  the global scope identity, which is what \<^verbatim>\<open>use\<close> gives an edge unless the
  options name another scope; the child of a node at an index; whether a definition
  has an entry of its own for a kind and key; and what the callback context of a node
  holds under a kind and key (nothing when the context is \<^verbatim>\<open>null\<close>).
\<close>

definition global_use :: "'w defs \<Rightarrow> heap \<Rightarrow> node_id \<Rightarrow> nat \<Rightarrow> def_id \<Rightarrow> bool" where
  "global_use ds h p j S \<longleftrightarrow>
     j < length (md_uses (ds (rt_def (h p)))) \<and>
     ue_def (md_uses (ds (rt_def (h p))) ! j) = S \<and>
     edge_key (md_uses (ds (rt_def (h p))) ! j) = EdgeKey GLOBAL_SCOPE"

definition child_at :: "heap \<Rightarrow> node_id \<Rightarrow> nat \<Rightarrow> node_id option" where
  "child_at h p j = (if j < length (rt_children (h p)) then Some (rt_children (h p) ! j) else None)"

definition declares :: "'w defs \<Rightarrow> def_id \<Rightarrow> ProviderKind \<Rightarrow> string \<Rightarrow> bool" where
  "declares ds d kd k \<longleftrightarrow> (\<exists>e \<in> set (md_providers (ds d)). pe_kind e = kd \<and> pe_key e = k)"

definition sees :: "heap \<Rightarrow> node_id \<Rightarrow> ProviderKind \<Rightarrow> string \<Rightarrow> val option" where
  "sees h p kd k = (case rt_callbackCtx (h p) of None \<Rightarrow> None | Some c \<Rightarrow> ctx_lookup kd k c)"

subsection \<open>A module shared by two parents\<close>

text \<open>
  \<open>app\<close> uses \<open>left\<close> and \<open>right\<close>, and both use \<open>shared\<close> with the default
  options of \<^verbatim>\<open>use\<close>. \<open>shared\<close> declares a scoped store entry that holds a
  reference.
\<close>

definition diamond_defs :: "string list defs" where
  "diamond_defs d =
     (if d = 0 then level_def ''shared''
         [\<lparr>pe_kind = Store, pe_key = ''counter'', pe_value = VRef 7, pe_export = True,
           pe_transitive = False, pe_isFactory = False, pe_mode = Append\<rparr>] []
      else if d = 1 then level_def ''left'' [] [edge_to ''shared'' 0]
      else if d = 2 then level_def ''right'' [] [edge_to ''shared'' 0]
      else if d = 3 then level_def ''app'' [] [edge_to ''left'' 1, edge_to ''right'' 2]
      else emptyDef)"

subsection \<open>Scopes and chains\<close>

text \<open>
  The flags \<^verbatim>\<open>#pushEntry\<close> gives an entry declared with a scope: exported unless the
  scope is local, transitive when it is global.
\<close>

definition declared_with :: "LifeCycleType \<Rightarrow> ProviderEntry \<Rightarrow> bool" where
  "declared_with sc e \<longleftrightarrow> pe_export e = (sc \<noteq> Local) \<and> pe_transitive e = (sc = Global)"


section \<open>Evaluation\<close>

text \<open>
  Concrete runs are evaluated by rewriting with the defining equations. The recursive
  equations of \<open>buildTree\<close> and \<open>visit\<close> are applied to the calls that are reached
  only: the congruence rules keep the simplifier out of the function arguments of the
  sequencing combinators.
\<close>

lemma mapM_st_cong_weak: "xs = ys \<Longrightarrow> s = t \<Longrightarrow> mapM_st f xs s = mapM_st f ys t"
  by simp

lemma foldM_st_cong_weak: "xs = ys \<Longrightarrow> s = t \<Longrightarrow> foldM_st f xs s = foldM_st f ys t"
  by simp

lemma bind_cong_weak: "m = m' \<Longrightarrow> Option.bind m f = Option.bind m' f"
  by simp

lemmas eval_cong = mapM_st_cong_weak foldM_st_cong_weak bind_cong_weak

lemmas builder_eval =
  provide_def_def decorate_def_def state_def_def with_args_def parseArgs_def isOpts_def
  addProviders_def pushEntry_def copyDef_def emptyDef_def read_kind_def read_mode_def
  read_scope_def nullish_def get_prop_def at_index_def Let_def

lemmas runtime_eval =
  start_def stop_def lifecycleOrder_def buildTree.simps visit.simps empty_build_def
  cache_get_def ensure_byScope_def store_node_def new_node_def edge_key_def
  initModule_def import_child_def PROVIDER_KINDS_def applyEntry_def invoke_def origin_name_def
  has_in_def proto_keys_def obj_set_def obj_delete_def obj_assign_def mk_ctx_def
  get_context_def isRunning_def Let_def

lemmas demo_eval =
  demo_call_def demo_defs_def demo_app_def logger_def_def app_def_def log_cb_def ready_cb_def

lemmas tower_eval =
  tower_defs_def level_def_def base_providers_def edge_to_def instance_of_def log_cb_def

text \<open>The logger definition is what the builder makes of the calls of the example.\<close>

lemma logger_def_built:
  "(case decorate_def [VStr ''logLevel'', VStr ''info''] emptyDef of
      Inl e \<Rightarrow> Inl e
    | Inr d1 \<Rightarrow>
       (case decorate_def [VStr ''log'', VFun 0, VObj [(''scope'', VStr ''scoped'')]] d1 of
          Inl e \<Rightarrow> Inl e
        | Inr d2 \<Rightarrow>
            Inr ((copyDef d2)\<lparr>md_loadCallbacks :=
                   md_loadCallbacks d2 @ [log_cb ''Logger initialized'']\<rparr>)))
   = Inr logger_def"
  by (simp add: builder_eval logger_def_def)

section \<open>Basic facts\<close>

subsection \<open>Sequencing\<close>

lemma mapM_st_preserves:
  assumes "mapM_st f xs s = Some (ys, s')"
    and "Q s"
    and "\<And>x t y t'. x \<in> set xs \<Longrightarrow> f x t = Some (y, t') \<Longrightarrow> Q t \<Longrightarrow> Q t'"
  shows "Q s'"
  using assms
proof (induction xs arbitrary: s ys)
  case Nil
  then show ?case by simp
next
  case (Cons x xs)
  from Cons.prems(1) obtain y t ys' where
    fx: "f x s = Some (y, t)" and rest: "mapM_st f xs t = Some (ys', s')"
    by (auto split: bind_splits)
  have "Q t" using Cons.prems(3)[OF _ fx Cons.prems(2)] by simp
  then show ?case using Cons.IH[OF rest] Cons.prems(3) by auto
qed

subsection \<open>The root closes the lifecycle order\<close>

lemma visit_root_last:
  assumes "visit h r st = Some st'" and "r \<notin> snd st"
  shows "\<exists>xs. fst st' = xs @ [r]"
  using assms by (subst (asm) visit.simps) (auto split: bind_splits)

lemma lifecycleOrder_root:
  assumes "lifecycleOrder h r = Some ord"
  shows "r \<in> set ord"
proof -
  from assms obtain st' where v: "visit h r ([], {}) = Some st'" and o: "ord = fst st'"
    by (auto simp: lifecycleOrder_def)
  from visit_root_last[OF v] o show ?thesis by auto
qed

subsection \<open>Initialisation writes one node\<close>

lemma initModule_frame:
  assumes "initModule call ds i h = Inr h'" and "j \<noteq> i"
  shows "h' j = h j"
  using assms by (auto simp: initModule_def Let_def split: if_splits sum.splits)

lemma initModule_done:
  assumes "initModule call ds i h = Inr h'" and "ctx_ok h"
  shows "rt_initialized (h' i) \<and> ctx_ok h' \<and>
    (\<forall>j. rt_initialized (h j) \<longrightarrow> rt_initialized (h' j))"
  using assms by (auto simp: initModule_def Let_def ctx_ok_def split: if_splits sum.splits)

lemma run_load_done:
  assumes "run_load call ds ord h w = (h', w', None)" and "ctx_ok h"
  shows "ctx_ok h' \<and> (\<forall>i. i \<in> set ord \<or> rt_initialized (h i) \<longrightarrow> rt_initialized (h' i))"
  using assms
proof (induction ord arbitrary: h w)
  case Nil
  then show ?case by simp
next
  case (Cons i rest)
  from Cons.prems(1) obtain h1 w1 where
    i1: "initModule call ds i h = Inr h1"
    and rest: "run_load call ds rest h1 w1 = (h', w', None)"
    by (auto split: sum.splits prod.splits option.splits)
  from initModule_done[OF i1 Cons.prems(2)]
  have d: "rt_initialized (h1 i)" and ok: "ctx_ok h1"
    and mono: "\<forall>j. rt_initialized (h j) \<longrightarrow> rt_initialized (h1 j)" by auto
  from Cons.IH[OF rest ok] d mono show ?case by auto
qed

subsection \<open>A freshly built tree is uninitialised\<close>

lemma store_node_uninit:
  assumes "\<forall>j. \<not> rt_initialized (bs_nodes st j)"
  shows "\<forall>j. \<not> rt_initialized (bs_nodes (snd (store_node nm d k cs st)) j)"
  using assms by (simp add: store_node_def Let_def new_node_def)

lemma buildTree_uninit:
  assumes "buildTree ds nm d k st = Some r"
  shows "(\<forall>j. \<not> rt_initialized (bs_nodes st j)) \<longrightarrow>
    (\<forall>j. \<not> rt_initialized (bs_nodes (snd r) j))"
proof (rule buildTree.raw_induct[where P = "\<lambda>ds nm d k st r.
          (\<forall>j. \<not> rt_initialized (bs_nodes st j)) \<longrightarrow>
          (\<forall>j. \<not> rt_initialized (bs_nodes (snd r) j))",
        OF _ assms])
  fix bt :: "'a defs \<Rightarrow> string \<Rightarrow> def_id \<Rightarrow> cache_key \<Rightarrow> build_state
               \<Rightarrow> (node_id \<times> build_state) option"
  fix ds nm d k st r
  assume IH: "\<And>ds nm d k st r. bt ds nm d k st = Some r \<Longrightarrow>
          (\<forall>j. \<not> rt_initialized (bs_nodes st j)) \<longrightarrow>
          (\<forall>j. \<not> rt_initialized (bs_nodes (snd r) j))"
    and body: "(if cache_get (bs_cache st) d k \<noteq> None
          then Some (the (cache_get (bs_cache st) d k), st)
          else Option.bind
                 (mapM_st (\<lambda>u s. bt ds (ue_name u) (ue_def u) (edge_key u) s)
                    (md_uses (ds d)) (ensure_byScope d st))
                 (\<lambda>r. Some (store_node nm d k (fst r) (snd r)))) = Some r"
  show "(\<forall>j. \<not> rt_initialized (bs_nodes st j)) \<longrightarrow>
    (\<forall>j. \<not> rt_initialized (bs_nodes (snd r) j))"
  proof
    assume u: "\<forall>j. \<not> rt_initialized (bs_nodes st j)"
    show "\<forall>j. \<not> rt_initialized (bs_nodes (snd r) j)"
    proof (cases "cache_get (bs_cache st) d k \<noteq> None")
      case True
      with body u show ?thesis by auto
    next
      case False
      with body obtain cs st2 where
        m: "mapM_st (\<lambda>u s. bt ds (ue_name u) (ue_def u) (edge_key u) s) (md_uses (ds d))
              (ensure_byScope d st) = Some (cs, st2)"
        and r: "r = store_node nm d k cs st2"
        by (auto split: bind_splits)
      have u1: "\<forall>j. \<not> rt_initialized (bs_nodes (ensure_byScope d st) j)"
        using u by (simp add: ensure_byScope_def)
      have "\<forall>j. \<not> rt_initialized (bs_nodes st2 j)"
      proof (rule mapM_st_preserves[where Q = "\<lambda>s. \<forall>j. \<not> rt_initialized (bs_nodes s j)",
            OF m u1])
        fix x t y t'
        assume "bt ds (ue_name x) (ue_def x) (edge_key x) t = Some (y, t')"
          and "\<forall>j. \<not> rt_initialized (bs_nodes t j)"
        with IH show "\<forall>j. \<not> rt_initialized (bs_nodes t' j)" by fastforce
      qed
      then show ?thesis unfolding r by (rule store_node_uninit)
    qed
  qed
qed

lemma empty_build_uninit: "\<forall>j. \<not> rt_initialized (bs_nodes empty_build j)"
  by (simp add: empty_build_def new_node_def)

subsection \<open>The outcomes of start and stop\<close>

lemma start_cases:
  assumes "start call ds a w = Some (a', w', r)" and "\<not> a_running a"
  obtains root st ord h' where
    "buildTree ds (a_name a) (a_def a) RootKey empty_build = Some (root, st)"
    "lifecycleOrder (bs_nodes st) root = Some ord"
    "run_load call ds ord (bs_nodes st) w = (h', w', r)"
    "r = None \<Longrightarrow> a' = a\<lparr>a_runtimeTree := Some \<lparr>t_root = root, t_nodes = h'\<rparr>, a_running := True\<rparr>"
    "r \<noteq> None \<Longrightarrow> a' = a\<lparr>a_runtimeTree := None, a_running := False\<rparr>"
  using assms
  by (auto simp: start_def split: bind_splits prod.splits option.splits)

lemma start_success_context:
  assumes "start call ds a w = Some (a', w', None)" and "\<not> a_running a"
  shows "\<exists>t. a_runtimeTree a' = Some t \<and> a_running a' \<and> rt_initialized (t_nodes t (t_root t)) \<and>
     get_context a' = Inr (Some (mk_ctx (rt_providers (t_nodes t (t_root t)) Decorator)
                               (rt_providers (t_nodes t (t_root t)) Store)))"
  using assms
proof (rule start_cases)
  fix root st ord h'
  assume b: "buildTree ds (a_name a) (a_def a) RootKey empty_build = Some (root, st)"
    and l: "lifecycleOrder (bs_nodes st) root = Some ord"
    and rl: "run_load call ds ord (bs_nodes st) w = (h', w', None)"
    and "None = None \<Longrightarrow>
         a' = a\<lparr>a_runtimeTree := Some \<lparr>t_root = root, t_nodes = h'\<rparr>, a_running := True\<rparr>"
  then have a': "a' = a\<lparr>a_runtimeTree := Some \<lparr>t_root = root, t_nodes = h'\<rparr>, a_running := True\<rparr>"
    by simp
  from buildTree_uninit[OF b] empty_build_uninit
  have "\<forall>j. \<not> rt_initialized (bs_nodes st j)" by simp
  then have ok: "ctx_ok (bs_nodes st)" by (simp add: ctx_ok_def)
  from run_load_done[OF rl ok] lifecycleOrder_root[OF l]
  have "ctx_ok h'" and "rt_initialized (h' root)" by auto
  then show ?thesis unfolding a' by (simp add: get_context_def ctx_ok_def)
qed

lemma start_coherent:
  assumes "start call ds a w = Some (a', w', r)" and "coherent a"
  shows "coherent a'"
proof (cases "a_running a")
  case True
  with assms show ?thesis by (simp add: start_def)
next
  case False
  from assms(1) False show ?thesis
    by (rule start_cases) (cases r; simp add: coherent_def)+
qed

lemma stop_result:
  assumes "stop ds a w = Some (a', w', r)"
  shows "\<not> a_running a' \<or> a_runtimeTree a' = None"
  using assms by (auto simp: stop_def split: option.splits if_splits bind_splits prod.splits)

lemma stop_coherent:
  assumes "stop ds a w = Some (a', w', r)" and "coherent a"
  shows "coherent a'"
  using assms
  by (auto simp: stop_def coherent_def split: option.splits if_splits bind_splits prod.splits)

lemma get_context_throws:
  "\<not> a_running a \<or> a_runtimeTree a = None \<Longrightarrow> get_context a = Inl (NotStarted (a_name a))"
  by (auto simp: get_context_def split: option.splits)

subsection \<open>The example run\<close>

lemma demo_start_ready:
  "\<exists>a'. start demo_call demo_defs demo_app [''ready'']
          = Some (a', [''ready'', ''Logger initialized'', ''App starting''], None) \<and>
        a_running a' \<and>
        get_context a' = Inr (Some
          [(''log'', PVal (VRef 1)), (''port'', PVal (VNum 3000)),
           (''decorator'', PObj [(''log'', VRef 1), (''port'', VNum 3000)]),
           (''store'', PObj [])]) \<and>
        (\<exists>a''. stop demo_defs a' [''ready'', ''Logger initialized'', ''App starting'']
           = Some (a'', [''ready'', ''Logger initialized'', ''App starting'', ''App stopping''],
                   None))"
  by (simp add: runtime_eval demo_eval cong: eval_cong)

lemma demo_start_not_ready:
  "start demo_call demo_defs demo_app []
     = Some (demo_app, [''Logger initialized''], Some (Thrown (VStr ''not ready'')))"
  by (simp add: runtime_eval demo_eval cong: eval_cong)

section \<open>The tree builder on acyclic definition graphs\<close>

lemma grows_refl: "grows st st" by (simp add: grows_def)

lemma grows_trans: "grows a b \<Longrightarrow> grows b c \<Longrightarrow> grows a c"
  by (auto simp: grows_def)

lemma cache_get_ensure [simp]:
  "cache_get (bs_cache (ensure_byScope d st)) d' k = cache_get (bs_cache st) d' k"
  by (auto simp: ensure_byScope_def cache_get_def)

lemma ensure_fields [simp]:
  "bs_nodes (ensure_byScope d st) = bs_nodes st" "bs_next (ensure_byScope d st) = bs_next st"
  by (auto simp: ensure_byScope_def)

lemma wf_build_ensure: "wf_build ds (ensure_byScope d st) = wf_build ds st"
  by (simp add: wf_build_def)

lemma cache_get_store:
  "cache_get (bs_cache (snd (store_node nm d k cs st))) d' k'
     = (if d' = d \<and> k' = k then Some (bs_next st) else cache_get (bs_cache st) d' k')"
  by (auto simp: store_node_def Let_def cache_get_def split: option.splits)

lemma store_fields:
  "fst (store_node nm d k cs st) = bs_next st"
  "bs_next (snd (store_node nm d k cs st)) = Suc (bs_next st)"
  "bs_nodes (snd (store_node nm d k cs st)) = (bs_nodes st)(bs_next st := new_node nm d cs)"
  by (auto simp: store_node_def Let_def)

lemma map_eq_Some_mem:
  assumes "map f xs = map Some cs" and "c \<in> set cs"
  shows "\<exists>x \<in> set xs. f x = Some c"
proof -
  from assms(2) have "Some c \<in> set (map Some cs)" by simp
  with assms(1) have "Some c \<in> set (map f xs)" by simp
  then show ?thesis by auto
qed

lemma map_eq_Some_all:
  assumes "map f xs = map Some cs" and "x \<in> set xs"
  shows "\<exists>c. f x = Some c"
proof -
  from assms(2) have "f x \<in> set (map f xs)" by simp
  with assms(1) have "f x \<in> set (map Some cs)" by simp
  then show ?thesis by auto
qed

lemma wf_build_store:
  assumes wf: "wf_build ds st"
    and none: "cache_get (bs_cache st) d k = None"
    and cs: "map (\<lambda>u. cache_get (bs_cache st) (ue_def u) (edge_key u)) (md_uses (ds d)) = map Some cs"
  shows "wf_build ds (snd (store_node nm d k cs st))"
proof -
  let ?st' = "snd (store_node nm d k cs st)"
  let ?n = "bs_next st"
  from wf have w1: "\<And>i c. i < ?n \<Longrightarrow> c \<in> set (rt_children (bs_nodes st i)) \<Longrightarrow> c < i"
    and w2: "\<And>d k i. cache_get (bs_cache st) d k = Some i \<Longrightarrow> i < ?n \<and> rt_def (bs_nodes st i) = d"
    and w3: "\<And>i. i < ?n \<Longrightarrow> bs_nodes st i =
        new_node (rt_name (bs_nodes st i)) (rt_def (bs_nodes st i)) (rt_children (bs_nodes st i))"
    and w4: "\<And>i. i < ?n \<Longrightarrow>
        map (\<lambda>u. cache_get (bs_cache st) (ue_def u) (edge_key u))
          (md_uses (ds (rt_def (bs_nodes st i)))) = map Some (rt_children (bs_nodes st i))"
    and w5: "\<And>i. i < ?n \<Longrightarrow> \<exists>k. cache_get (bs_cache st) (rt_def (bs_nodes st i)) k = Some i"
    and w6: "\<And>d k d' k' i. cache_get (bs_cache st) d k = Some i \<Longrightarrow>
        cache_get (bs_cache st) d' k' = Some i \<Longrightarrow> d = d' \<and> k = k'"
    unfolding wf_build_def by blast+
  have csb: "c < ?n" if "c \<in> set cs" for c
    using map_eq_Some_mem[OF cs that] w2 by blast
  have same: "map (\<lambda>u. cache_get (bs_cache ?st') (ue_def u) (edge_key u)) us
            = map (\<lambda>u. cache_get (bs_cache st) (ue_def u) (edge_key u)) us"
    if "map (\<lambda>u. cache_get (bs_cache st) (ue_def u) (edge_key u)) us = map Some xs" for us xs
  proof (rule map_cong[OF refl])
    fix u assume "u \<in> set us"
    from map_eq_Some_all[OF that this] none
    show "cache_get (bs_cache ?st') (ue_def u) (edge_key u)
        = cache_get (bs_cache st) (ue_def u) (edge_key u)"
      by (auto simp: cache_get_store)
  qed
  have c1: "\<forall>i < bs_next ?st'. \<forall>c \<in> set (rt_children (bs_nodes ?st' i)). c < i"
    using w1 csb by (auto simp: store_fields new_node_def less_Suc_eq)
  have c2: "\<forall>d' k' i. cache_get (bs_cache ?st') d' k' = Some i \<longrightarrow>
        i < bs_next ?st' \<and> rt_def (bs_nodes ?st' i) = d'"
    using w2 by (auto simp: store_fields cache_get_store new_node_def less_Suc_eq split: if_splits)
  have c3: "\<forall>i < bs_next ?st'. bs_nodes ?st' i =
        new_node (rt_name (bs_nodes ?st' i)) (rt_def (bs_nodes ?st' i)) (rt_children (bs_nodes ?st' i))"
    using w3 by (auto simp: store_fields new_node_def less_Suc_eq)
  have c4: "\<forall>i < bs_next ?st'.
        map (\<lambda>u. cache_get (bs_cache ?st') (ue_def u) (edge_key u))
          (md_uses (ds (rt_def (bs_nodes ?st' i)))) = map Some (rt_children (bs_nodes ?st' i))"
  proof (intro allI impI)
    fix i assume "i < bs_next ?st'"
    then consider "i < ?n" | "i = ?n" by (auto simp: store_fields less_Suc_eq)
    then show "map (\<lambda>u. cache_get (bs_cache ?st') (ue_def u) (edge_key u))
          (md_uses (ds (rt_def (bs_nodes ?st' i)))) = map Some (rt_children (bs_nodes ?st' i))"
    proof cases
      case 1
      then have n: "bs_nodes ?st' i = bs_nodes st i" by (simp add: store_fields)
      show ?thesis unfolding n using same[OF w4[OF 1]] w4[OF 1] by simp
    next
      case 2
      then have n: "bs_nodes ?st' i = new_node nm d cs" by (simp add: store_fields)
      show ?thesis unfolding n using same[OF cs] cs by (simp add: new_node_def)
    qed
  qed
  have c5: "\<forall>i < bs_next ?st'. \<exists>k'. cache_get (bs_cache ?st') (rt_def (bs_nodes ?st' i)) k' = Some i"
  proof (intro allI impI)
    fix i assume "i < bs_next ?st'"
    then consider "i < ?n" | "i = ?n" by (auto simp: store_fields less_Suc_eq)
    then show "\<exists>k'. cache_get (bs_cache ?st') (rt_def (bs_nodes ?st' i)) k' = Some i"
    proof cases
      case 1
      from w5[OF 1] obtain k' where "cache_get (bs_cache st) (rt_def (bs_nodes st i)) k' = Some i" ..
      with none 1 show ?thesis by (auto simp: store_fields cache_get_store intro!: exI[of _ k'])
    next
      case 2
      then show ?thesis by (auto simp: store_fields cache_get_store new_node_def intro!: exI[of _ k])
    qed
  qed
  have c6: "\<forall>d1 k1 d2 k2 i. cache_get (bs_cache ?st') d1 k1 = Some i \<and>
        cache_get (bs_cache ?st') d2 k2 = Some i \<longrightarrow> d1 = d2 \<and> k1 = k2"
  proof -
    have nonew: "cache_get (bs_cache st) d' k' \<noteq> Some ?n" for d' k'
      using w2[of d' k' ?n] by auto
    show ?thesis
      using w6 nonew by (auto simp: cache_get_store split: if_splits)
  qed
  from c1 c2 c3 c4 c5 c6 show ?thesis unfolding wf_build_def by blast
qed

lemma visit_hit: "node \<in> snd st \<Longrightarrow> visit h node st = Some st"
  by (subst visit.simps) simp

lemma visit_miss:
  "node \<notin> snd st \<Longrightarrow> visit h node st =
     Option.bind (foldM_st (\<lambda>c s. visit h c s) (rt_children (h node)) (fst st, insert node (snd st)))
       (\<lambda>st'. Some (fst st' @ [node], snd st'))"
  by (subst visit.simps) simp

lemma buildTree_hit:
  "cache_get (bs_cache st) d k = Some i \<Longrightarrow> buildTree ds nm d k st = Some (i, st)"
  by (subst buildTree.simps) simp

lemma buildTree_miss:
  "cache_get (bs_cache st) d k = None \<Longrightarrow> buildTree ds nm d k st =
     Option.bind
       (mapM_st (\<lambda>u s. buildTree ds (ue_name u) (ue_def u) (edge_key u) s)
          (md_uses (ds d)) (ensure_byScope d st))
       (\<lambda>r. Some (store_node nm d k (fst r) (snd r)))"
  by (subst buildTree.simps) simp

lemma build_children:
  assumes outer: "\<And>d nm k st. d \<in> D \<Longrightarrow> rk d < r \<Longrightarrow> wf_build ds st \<Longrightarrow>
      \<exists>i st'. buildTree ds nm d k st = Some (i, st') \<and> built_ok ds rk d k st i st'"
    and us: "\<forall>u \<in> set us. ue_def u \<in> D \<and> rk (ue_def u) < r"
    and wf: "wf_build ds st"
  shows "\<exists>cs st'.
     mapM_st (\<lambda>u s. buildTree ds (ue_name u) (ue_def u) (edge_key u) s) us st = Some (cs, st') \<and>
     wf_build ds st' \<and> grows st st' \<and>
     (\<forall>d' k'. r \<le> rk d' \<longrightarrow> cache_get (bs_cache st') d' k' = cache_get (bs_cache st) d' k') \<and>
     map (\<lambda>u. cache_get (bs_cache st') (ue_def u) (edge_key u)) us = map Some cs \<and>
     visits st st' (\<lambda>H. foldM_st (\<lambda>c s. visit H c s) cs)"
  using us wf
proof (induction us arbitrary: st)
  case Nil
  then show ?case by (simp add: grows_refl visits_def)
next
  case (Cons u us)
  from Cons.prems(1) have ud: "ue_def u \<in> D" and ur: "rk (ue_def u) < r"
    and rest: "\<forall>u \<in> set us. ue_def u \<in> D \<and> rk (ue_def u) < r" by auto
  from outer[OF ud ur Cons.prems(2), of "ue_name u" "edge_key u"] obtain c st1 where
    b1: "buildTree ds (ue_name u) (ue_def u) (edge_key u) st = Some (c, st1)"
    and ok1: "built_ok ds rk (ue_def u) (edge_key u) st c st1" by blast
  from ok1 have wf1: "wf_build ds st1" and g1: "grows st st1"
    and c1: "cache_get (bs_cache st1) (ue_def u) (edge_key u) = Some c"
    and f1: "\<forall>d' k'. rk (ue_def u) < rk d' \<longrightarrow>
               cache_get (bs_cache st1) d' k' = cache_get (bs_cache st) d' k'"
    and v1: "visits st st1 (\<lambda>H. visit H c)"
    by (auto simp: built_ok_def)
  from Cons.IH[OF rest wf1] obtain cs st' where
    m: "mapM_st (\<lambda>u s. buildTree ds (ue_name u) (ue_def u) (edge_key u) s) us st1 = Some (cs, st')"
    and wf': "wf_build ds st'" and g': "grows st1 st'"
    and f': "\<forall>d' k'. r \<le> rk d' \<longrightarrow> cache_get (bs_cache st') d' k' = cache_get (bs_cache st1) d' k'"
    and l': "map (\<lambda>u. cache_get (bs_cache st') (ue_def u) (edge_key u)) us = map Some cs"
    and v': "visits st1 st' (\<lambda>H. foldM_st (\<lambda>c s. visit H c s) cs)"
    by blast
  have run: "mapM_st (\<lambda>u s. buildTree ds (ue_name u) (ue_def u) (edge_key u) s) (u # us) st
      = Some (c # cs, st')"
    using b1 m by simp
  have g: "grows st st'" using g1 g' by (rule grows_trans)
  have f: "\<forall>d' k'. r \<le> rk d' \<longrightarrow> cache_get (bs_cache st') d' k' = cache_get (bs_cache st) d' k'"
    using f1 f' ur by auto
  have c': "cache_get (bs_cache st') (ue_def u) (edge_key u) = Some c"
    using c1 g' by (auto simp: grows_def)
  have l: "map (\<lambda>u. cache_get (bs_cache st') (ue_def u) (edge_key u)) (u # us) = map Some (c # cs)"
    using c' l' by simp
  have v: "visits st st' (\<lambda>H. foldM_st (\<lambda>c s. visit H c s) (c # cs))"
    unfolding visits_def
  proof (intro allI impI)
    fix H :: heap and ord :: "node_id list" and X :: "node_id set"
    assume a: "(\<forall>i<bs_next st'. rt_children (H i) = rt_children (bs_nodes st' i)) \<and>
               (\<forall>x\<in>X. bs_next st' \<le> x)"
    have le: "bs_next st \<le> bs_next st1" "bs_next st1 \<le> bs_next st'"
      using g1 g' by (auto simp: grows_def)
    have a1: "(\<forall>i<bs_next st1. rt_children (H i) = rt_children (bs_nodes st1 i)) \<and>
               (\<forall>x\<in>X. bs_next st1 \<le> x)"
      using a g' le by (fastforce simp: grows_def)
    from v1 a1 have s1: "visit H c (ord, {0..<bs_next st} \<union> X)
        = Some (ord @ [bs_next st..<bs_next st1], {0..<bs_next st1} \<union> X)"
      unfolding visits_def by blast
    from v' a have s2: "foldM_st (\<lambda>c s. visit H c s) cs
          (ord @ [bs_next st..<bs_next st1], {0..<bs_next st1} \<union> X)
        = Some ((ord @ [bs_next st..<bs_next st1]) @ [bs_next st1..<bs_next st'],
                {0..<bs_next st'} \<union> X)"
      unfolding visits_def by blast
    have "[bs_next st..<bs_next st1] @ [bs_next st1..<bs_next st'] = [bs_next st..<bs_next st']"
      using le by (metis le_Suc_ex upt_add_eq_append)
    with s1 s2 show "foldM_st (\<lambda>c s. visit H c s) (c # cs) (ord, {0..<bs_next st} \<union> X)
        = Some (ord @ [bs_next st..<bs_next st'], {0..<bs_next st'} \<union> X)"
      by simp
  qed
  from run wf' g f l v show ?case by blast
qed

lemma buildTree_ranked:
  assumes rk: "ranked ds rk D"
  shows "d \<in> D \<Longrightarrow> wf_build ds st \<Longrightarrow>
     \<exists>i st'. buildTree ds nm d k st = Some (i, st') \<and> built_ok ds rk d k st i st'"
proof (induction "rk d" arbitrary: d nm k st rule: less_induct)
  case less
  note dD = less.prems(1) and wf = less.prems(2)
  show ?case
  proof (cases "cache_get (bs_cache st) d k")
    case (Some i)
    from wf Some have ib: "i < bs_next st" by (auto simp: wf_build_def)
    have v: "visits st st (\<lambda>H. visit H i)"
      using ib by (auto simp: visits_def visit_hit)
    from buildTree_hit[OF Some, of ds nm] wf Some v show ?thesis
      by (auto simp: built_ok_def grows_refl)
  next
    case None
    let ?st0 = "ensure_byScope d st"
    have wf0: "wf_build ds ?st0" using wf by (simp add: wf_build_ensure)
    have us: "\<forall>u \<in> set (md_uses (ds d)). ue_def u \<in> D \<and> rk (ue_def u) < rk d"
      using rk dD by (auto simp: ranked_def)
    have outer: "\<exists>i st'. buildTree ds nm' d' k' st1 = Some (i, st') \<and> built_ok ds rk d' k' st1 i st'"
      if "d' \<in> D" "rk d' < rk d" "wf_build ds st1" for d' nm' k' st1
      using less.hyps[OF that(2) that(1) that(3)] .
    from build_children[where r = "rk d" and D = D, OF outer us wf0]
    obtain cs st2 where
      m: "mapM_st (\<lambda>u s. buildTree ds (ue_name u) (ue_def u) (edge_key u) s) (md_uses (ds d)) ?st0
            = Some (cs, st2)"
      and wf2: "wf_build ds st2" and g2: "grows ?st0 st2"
      and f2: "\<forall>d' k'. rk d \<le> rk d' \<longrightarrow>
                 cache_get (bs_cache st2) d' k' = cache_get (bs_cache ?st0) d' k'"
      and l2: "map (\<lambda>u. cache_get (bs_cache st2) (ue_def u) (edge_key u)) (md_uses (ds d)) = map Some cs"
      and v2: "visits ?st0 st2 (\<lambda>H. foldM_st (\<lambda>c s. visit H c s) cs)"
      by blast
    let ?r = "store_node nm d k cs st2"
    let ?st' = "snd ?r"
    have run: "buildTree ds nm d k st = Some (bs_next st2, ?st')"
      using buildTree_miss[OF None, of ds nm] m by (simp add: store_fields prod_eq_iff)
    have none2: "cache_get (bs_cache st2) d k = None" using f2 None by simp
    have wf': "wf_build ds ?st'" by (rule wf_build_store[OF wf2 none2 l2])
    have g: "grows st ?st'"
      using g2 none2 by (auto simp: grows_def store_fields cache_get_store)
    have c: "cache_get (bs_cache ?st') d k = Some (bs_next st2)" by (simp add: cache_get_store)
    have f: "\<forall>d' k'. rk d < rk d' \<longrightarrow> cache_get (bs_cache ?st') d' k' = cache_get (bs_cache st) d' k'"
      using f2 by (auto simp: cache_get_store)
    have v: "visits st ?st' (\<lambda>H. visit H (bs_next st2))"
      unfolding visits_def
    proof (intro allI impI)
      fix H :: heap and ord :: "node_id list" and X :: "node_id set"
      assume a: "(\<forall>i<bs_next ?st'. rt_children (H i) = rt_children (bs_nodes ?st' i)) \<and>
               (\<forall>x\<in>X. bs_next ?st' \<le> x)"
      let ?i = "bs_next st2"
      have le: "bs_next st \<le> ?i" using g2 by (simp add: grows_def)
      have notin: "?i \<notin> snd (ord, {0..<bs_next st} \<union> X)"
        using a le by (auto simp: store_fields)
      have ch: "rt_children (H ?i) = cs" using a by (simp add: store_fields new_node_def)
      have a2: "(\<forall>i<bs_next st2. rt_children (H i) = rt_children (bs_nodes st2 i)) \<and>
               (\<forall>x\<in>insert ?i X. bs_next st2 \<le> x)"
        using a by (auto simp: store_fields)
      from v2 a2 have s2: "foldM_st (\<lambda>c s. visit H c s) cs (ord, {0..<bs_next ?st0} \<union> insert ?i X)
          = Some (ord @ [bs_next ?st0..<bs_next st2], {0..<bs_next st2} \<union> insert ?i X)"
        unfolding visits_def by blast
      have e1: "insert ?i ({0..<bs_next st} \<union> X) = {0..<bs_next ?st0} \<union> insert ?i X" by auto
      have e2: "{0..<?i} \<union> insert ?i X = {0..<bs_next ?st'} \<union> X"
        by (auto simp: store_fields)
      have e3: "(ord @ [bs_next ?st0..<?i]) @ [?i] = ord @ [bs_next st..<bs_next ?st']"
        using le by (simp add: store_fields)
      have "visit H ?i (ord, {0..<bs_next st} \<union> X)
          = Option.bind (foldM_st (\<lambda>c s. visit H c s) cs (ord, insert ?i ({0..<bs_next st} \<union> X)))
              (\<lambda>st'. Some (fst st' @ [?i], snd st'))"
        using visit_miss[OF notin] by (simp only: ch fst_conv snd_conv)
      also have "\<dots> = Some ((ord @ [bs_next ?st0..<?i]) @ [?i], {0..<?i} \<union> insert ?i X)"
        by (simp only: e1 s2 Option.bind.simps fst_conv snd_conv)
      finally show "visit H ?i (ord, {0..<bs_next st} \<union> X)
          = Some (ord @ [bs_next st..<bs_next ?st'], {0..<bs_next ?st'} \<union> X)"
        by (simp only: e2 e3)
    qed
    from run wf' g c f v show ?thesis by (auto simp: built_ok_def)
  qed
qed

lemma wf_build_empty: "wf_build ds empty_build"
  by (simp add: wf_build_def empty_build_def cache_get_def)



lemma wf_build_cached:
  "wf_build ds st \<Longrightarrow> i < bs_next st \<Longrightarrow>
     \<exists>k. cache_get (bs_cache st) (rt_def (bs_nodes st i)) k = Some i"
  unfolding wf_build_def by blast


lemma wf_build_bound:
  "wf_build ds st \<Longrightarrow> cache_get (bs_cache st) d k = Some i \<Longrightarrow>
     i < bs_next st \<and> rt_def (bs_nodes st i) = d"
  unfolding wf_build_def by blast

subsection \<open>Initialisation keeps the shape of the tree\<close>

lemma same_shape_refl [simp]: "same_shape nd nd"
  by (simp add: same_shape_def)

lemma same_shape_trans: "same_shape a b \<Longrightarrow> same_shape b c \<Longrightarrow> same_shape a c"
  by (simp add: same_shape_def)

lemma applyEntry_shape:
  "applyEntry call e nm nd = Inr nd' \<Longrightarrow> same_shape nd nd'"
  by (auto simp: applyEntry_def Let_def same_shape_def split: if_splits sum.splits)

lemma apply_entries_shape:
  "apply_entries call nm es nd = Inr nd' \<Longrightarrow> same_shape nd nd'"
proof (induction es arbitrary: nd)
  case Nil
  then show ?case by simp
next
  case (Cons e es)
  then show ?case
    by (auto split: sum.splits dest!: applyEntry_shape intro: same_shape_trans)
qed

lemma import_entries_shape:
  "import_entries kind cname es nd = Inr nd' \<Longrightarrow> same_shape nd nd'"
proof (induction es arbitrary: nd)
  case Nil
  then show ?case by simp
next
  case (Cons e es)
  obtain k v where e: "e = (k, v)" by (cases e)
  from Cons.prems have "same_shape
      (nd\<lparr>rt_providers := (rt_providers nd)(kind := obj_set k v (rt_providers nd kind)),
           rt_providerOrigins := AList.update (kind, k)
              \<lparr>po_kind = kind, po_key = k, po_moduleName = cname, po_isExported = True\<rparr>
              (rt_providerOrigins nd)\<rparr>) nd'"
    unfolding e by (auto split: if_splits intro: Cons.IH)
  then show ?case by (simp add: same_shape_def)
qed

lemma import_kinds_shape:
  "import_kinds ks child nd = Inr nd' \<Longrightarrow> same_shape nd nd'"
proof (induction ks arbitrary: nd)
  case Nil
  then show ?case by simp
next
  case (Cons k ks)
  then show ?case
    by (auto split: sum.splits dest!: import_entries_shape intro: same_shape_trans)
qed

lemma propagate_kinds_shape: "same_shape nd (propagate_kinds ks child nd)"
proof (induction ks arbitrary: nd)
  case Nil
  then show ?case by simp
next
  case (Cons k ks)
  have "same_shape nd (nd\<lparr>rt_exportedProviders := (rt_exportedProviders nd)
              (k := obj_assign (rt_exportedProviders nd k) (rt_propagatedProviders child k)),
           rt_propagatedProviders := (rt_propagatedProviders nd)
              (k := obj_assign (rt_propagatedProviders nd k)
                         (rt_propagatedProviders child k))\<rparr>)"
    by (simp add: same_shape_def)
  then show ?case using Cons.IH by (auto intro: same_shape_trans)
qed

lemma import_child_shape:
  "import_child child e nd = Inr nd' \<Longrightarrow> same_shape nd nd'"
  by (auto simp: import_child_def split: sum.splits if_splits
      dest!: import_kinds_shape intro: same_shape_trans propagate_kinds_shape)

lemma import_children_shape:
  "import_children h self cs es nd = Inr nd' \<Longrightarrow> same_shape nd nd'"
proof (induction h self cs es nd rule: import_children.induct)
  case (3 h self c cs e es nd)
  then show ?case
    by (auto split: sum.splits dest!: import_child_shape intro: same_shape_trans)
qed simp_all

lemma initModule_shape:
  assumes "initModule call ds i h = Inr h'"
  shows "same_shape (h j) (h' j)"
proof (cases "j = i")
  case False
  with initModule_frame[OF assms] show ?thesis by simp
next
  case True
  with assms show ?thesis
    by (auto simp: initModule_def Let_def split: if_splits sum.splits
        dest!: import_children_shape apply_entries_shape simp: same_shape_def)
qed

lemma run_load_shape:
  "run_load call ds ord h w = (h', w', r) \<Longrightarrow> same_shape (h j) (h' j)"
proof (induction ord arbitrary: h w)
  case Nil
  then show ?case by simp
next
  case (Cons i rest)
  show ?case
  proof (cases "initModule call ds i h")
    case (Inl e)
    with Cons.prems show ?thesis by simp
  next
    case (Inr h1)
    note s1 = initModule_shape[OF Inr, of j]
    show ?thesis
    proof (cases "run_callbacks (md_loadCallbacks (ds (rt_def (h1 i)))) (rt_callbackCtx (h1 i)) w")
      case (Pair w1 r1)
      show ?thesis
      proof (cases r1)
        case None
        with Cons.prems Inr Pair have "run_load call ds rest h1 w1 = (h', w', r)" by simp
        from Cons.IH[OF this] s1 show ?thesis by (rule same_shape_trans[rotated])
      next
        case (Some e)
        with Cons.prems Inr Pair s1 show ?thesis by simp
      qed
    qed
  qed
qed

subsection \<open>A chain of three\<close>

lemma chain3_build:
  assumes "md_uses (ds a) = [ea]" "ue_def ea = b" "md_uses (ds b) = [eb]" "ue_def eb = c"
    "md_uses (ds c) = []"
  shows "\<exists>st. buildTree ds nm a RootKey empty_build = Some (2, st) \<and> bs_next st = 3 \<and>
     bs_nodes st 0 = new_node (ue_name eb) c [] \<and>
     bs_nodes st 1 = new_node (ue_name ea) b [0] \<and>
     bs_nodes st 2 = new_node nm a [1]"
proof -
  from assms have ne: "a \<noteq> b" "b \<noteq> c" "a \<noteq> c" "b \<noteq> a" "c \<noteq> b" "c \<noteq> a" by auto
  show ?thesis
    using assms ne
    by (simp add: buildTree.simps empty_build_def cache_get_def ensure_byScope_def store_node_def
        edge_key_def Let_def numeral_2_eq_2 numeral_3_eq_3 cong: eval_cong)
qed

lemma chain3_order:
  assumes "rt_children (h 0) = []" "rt_children (h 1) = [0]" "rt_children (h 2) = [1]"
  shows "lifecycleOrder h 2 = Some [0, 1, 2]"
  using assms
  by (simp add: lifecycleOrder_def visit.simps numeral_2_eq_2 cong: eval_cong)

subsection \<open>A definition that uses itself is never built\<close>


subsection \<open>Initialisation, node by node\<close>

lemma initModule_init_result:
  "initModule call ds i h =
     (if rt_initialized (h i) then Inr h
      else (case init_result call ds h i (h i) of Inl e \<Rightarrow> Inl e | Inr nd \<Rightarrow> Inr (h(i := nd))))"
  by (simp add: initModule_def init_result_def Let_def split: sum.splits)

lemma import_children_local:
  assumes "\<forall>c \<in> set cs. c \<noteq> i \<longrightarrow> h1 c = h2 c"
  shows "import_children h1 i cs es nd = import_children h2 i cs es nd"
  using assms
proof (induction h1 i cs es nd rule: import_children.induct)
  case (3 h self c cs e es nd)
  then show ?case by (auto split: sum.splits)
qed simp_all

lemma init_result_local:
  assumes "\<forall>c \<in> set (rt_children nd). c \<noteq> i \<longrightarrow> h1 c = h2 c"
  shows "init_result call ds h1 i nd = init_result call ds h2 i nd"
  using import_children_local[OF assms] by (simp add: init_result_def)

lemma init_result_initialized:
  "init_result call ds h i nd = Inr nd' \<Longrightarrow> rt_initialized nd'"
  by (auto simp: init_result_def split: sum.splits)

lemma run_load_settles:
  assumes "run_load call ds [a..<n] h w = (h', w', r)"
    and "\<forall>i<a. settled call ds h0 h i"
    and "\<forall>i\<ge>a. h i = h0 i"
    and "\<forall>i<n. \<not> rt_initialized (h0 i) \<and> (\<forall>c\<in>set (rt_children (h0 i)). c < i)"
    and "a \<le> n"
  shows "\<exists>m. a \<le> m \<and> m \<le> n \<and> (\<forall>i<m. settled call ds h0 h' i) \<and> (\<forall>i\<ge>m. h' i = h0 i) \<and>
             (r = None \<longrightarrow> m = n)"
  using assms
proof (induction "n - a" arbitrary: a h w)
  case 0
  then have "a = n" by simp
  with 0 show ?case by (auto intro!: exI[of _ n])
next
  case (Suc x)
  then have lt: "a < n" by simp
  then have upt: "[a..<n] = a # [Suc a..<n]" by (simp add: upt_conv_Cons)
  have ha: "h a = h0 a" using Suc.prems(3) by simp
  have ninit: "\<not> rt_initialized (h a)" using Suc.prems(4) lt ha by simp
  have older: "\<forall>c\<in>set (rt_children (h0 a)). c < a" using Suc.prems(4) lt by simp
  show ?case
  proof (cases "init_result call ds h a (h a)")
    case (Inl e)
    with Suc.prems(1) ninit have "h' = h" "r = Some e"
      by (simp_all add: upt initModule_init_result)
    with Suc.prems(2,3) show ?thesis by (auto intro!: exI[of _ a] simp: lt less_imp_le)
  next
    case (Inr nd)
    let ?h1 = "h(a := nd)"
    have im: "initModule call ds a h = Inr ?h1"
      using Inr ninit by (simp add: initModule_init_result)
    have set_a: "settled call ds h0 ?h1 a"
    proof -
      have "init_result call ds ?h1 a (h0 a) = init_result call ds h a (h0 a)"
        by (rule init_result_local) (use older in auto)
      with Inr ha show ?thesis by (simp add: settled_def)
    qed
    have set_lt: "settled call ds h0 ?h1 i" if "i < a" for i
    proof -
      from Suc.prems(4) that lt have "\<forall>c\<in>set (rt_children (h0 i)). c < i" by simp
      then have "init_result call ds ?h1 i (h0 i) = init_result call ds h i (h0 i)"
        using that by (intro init_result_local) auto
      with Suc.prems(2) that show ?thesis by (simp add: settled_def)
    qed
    have below: "\<forall>i<Suc a. settled call ds h0 ?h1 i"
      using set_a set_lt by (auto simp: less_Suc_eq)
    have rest: "\<forall>i\<ge>Suc a. ?h1 i = h0 i" using Suc.prems(3) by auto
    obtain w1 r1 where cb: "run_callbacks (md_loadCallbacks (ds (rt_def (?h1 a))))
        (rt_callbackCtx (?h1 a)) w = (w1, r1)" by (cases "run_callbacks (md_loadCallbacks (ds (rt_def (?h1 a))))
        (rt_callbackCtx (?h1 a)) w") auto
    show ?thesis
    proof (cases r1)
      case (Some e)
      with Suc.prems(1) im cb have "h' = ?h1" "r = Some e" by (simp_all add: upt)
      with below rest lt show ?thesis by (auto intro!: exI[of _ "Suc a"])
    next
      case None
      with Suc.prems(1) im cb have rl: "run_load call ds [Suc a..<n] ?h1 w1 = (h', w', r)"
        by (simp add: upt)
      have x: "x = n - Suc a" using Suc.hyps(2) by simp
      from Suc.hyps(1)[OF x rl below rest Suc.prems(4)] lt
      obtain m where "Suc a \<le> m" "m \<le> n" "\<forall>i<m. settled call ds h0 h' i" "\<forall>i\<ge>m. h' i = h0 i"
        "r = None \<longrightarrow> m = n" by auto
      then show ?thesis by (auto intro!: exI[of _ m])
    qed
  qed
qed

subsection \<open>Plain objects as finite maps\<close>

lemma proto_not_key: "\<not> has_in k ob \<Longrightarrow> k \<noteq> ''__proto__''"
  by (auto simp: has_in_def proto_keys_def)

lemma has_in_map_of: "has_in k ob \<longleftrightarrow> map_of ob k \<noteq> None \<or> k \<in> set proto_keys"
  by (auto simp: has_in_def map_of_eq_None_iff)

lemma map_of_obj_set:
  "map_of (obj_set k v ob) k' =
     (if k = ''__proto__'' then map_of ob k' else if k' = k then Some v else map_of ob k')"
  by (simp add: obj_set_def update_conv')

lemma map_of_obj_delete:
  "map_of (obj_delete k ob) k' = (if k' = k then None else map_of ob k')"
  by (simp add: obj_delete_def delete_conv')

lemma distinct_obj_set: "distinct (map fst ob) \<Longrightarrow> distinct (map fst (obj_set k v ob))"
  by (simp add: obj_set_def distinct_update)

lemma distinct_obj_delete: "distinct (map fst ob) \<Longrightarrow> distinct (map fst (obj_delete k ob))"
  by (simp add: obj_delete_def distinct_delete)

lemma distinct_obj_assign:
  "distinct (map fst t) \<Longrightarrow> distinct (map fst (obj_assign t s))"
  unfolding obj_assign_def
  by (induction s arbitrary: t) (auto simp: distinct_obj_set)

lemma map_of_obj_assign_absent:
  "map_of s k = None \<Longrightarrow> map_of (obj_assign t s) k = map_of t k"
  unfolding obj_assign_def
proof (induction s arbitrary: t)
  case Nil
  then show ?case by simp
next
  case (Cons a s)
  obtain k0 v0 where a: "a = (k0, v0)" by (cases a)
  from Cons.prems a have ne: "k \<noteq> k0" and r: "map_of s k = None" by (auto split: if_splits)
  from Cons.IH[OF r, of "obj_set k0 v0 t"] ne show ?case
    by (simp add: a map_of_obj_set)
qed

lemma map_of_obj_assign_present:
  "distinct (map fst s) \<Longrightarrow> map_of s k = Some v \<Longrightarrow> k \<noteq> ''__proto__'' \<Longrightarrow>
     map_of (obj_assign t s) k = Some v"
  unfolding obj_assign_def
proof (induction s arbitrary: t)
  case Nil
  then show ?case by simp
next
  case (Cons a s)
  obtain k0 v0 where a: "a = (k0, v0)" by (cases a)
  show ?case
  proof (cases "k = k0")
    case True
    with Cons.prems a have "map_of s k = None" and "v0 = v"
      by (auto simp: map_of_eq_None_iff)
    with map_of_obj_assign_absent[OF this(1), of "obj_set k0 v0 t"] True Cons.prems(3)
    show ?thesis by (simp add: a obj_assign_def map_of_obj_set)
  next
    case False
    with Cons.prems a have "distinct (map fst s)" "map_of s k = Some v" by auto
    from Cons.IH[OF this Cons.prems(3)] show ?thesis by (simp add: a)
  qed
qed

lemma ok_obj_Nil [simp]: "ok_obj []"
  by (simp add: ok_obj_def)

lemma ok_obj_set: "ok_obj ob \<Longrightarrow> ok_obj (obj_set k v ob)"
  by (simp add: ok_obj_def distinct_obj_set map_of_obj_set)

lemma ok_obj_delete: "ok_obj ob \<Longrightarrow> ok_obj (obj_delete k ob)"
  by (simp add: ok_obj_def distinct_obj_delete map_of_obj_delete)

lemma ok_obj_assign: "ok_obj t \<Longrightarrow> ok_obj (obj_assign t s)"
  unfolding obj_assign_def
  by (induction s arbitrary: t) (auto simp: ok_obj_set)

lemma ok_obj_key: "ok_obj ob \<Longrightarrow> map_of ob k = Some v \<Longrightarrow> k \<noteq> ''__proto__''"
  by (auto simp: ok_obj_def)

subsection \<open>The entries of a module\<close>

lemma applyEntry_other:
  assumes "applyEntry call e nm nd = Inr nd'" and "pe_kind e \<noteq> kd \<or> pe_key e \<noteq> k"
  shows "look (rt_providers nd') kd k = look (rt_providers nd) kd k \<and>
         look (rt_exportedProviders nd') kd k = look (rt_exportedProviders nd) kd k \<and>
         look (rt_propagatedProviders nd') kd k = look (rt_propagatedProviders nd) kd k"
  using assms
  by (auto simp: applyEntry_def Let_def look_def map_of_obj_set map_of_obj_delete
      split: if_splits sum.splits)

lemma applyEntry_maps_ok:
  assumes "applyEntry call e nm nd = Inr nd'" and "maps_ok nd"
  shows "maps_ok nd'"
  using assms
  by (auto simp: applyEntry_def Let_def maps_ok_def ok_obj_set ok_obj_delete
      split: if_splits sum.splits)


lemma apply_entries_other:
  assumes "apply_entries call nm es nd = Inr nd'"
    and "\<forall>e \<in> set es. pe_kind e \<noteq> kd \<or> pe_key e \<noteq> k"
  shows "look (rt_providers nd') kd k = look (rt_providers nd) kd k \<and>
         look (rt_exportedProviders nd') kd k = look (rt_exportedProviders nd) kd k \<and>
         look (rt_propagatedProviders nd') kd k = look (rt_propagatedProviders nd) kd k"
  using assms
proof (induction es arbitrary: nd)
  case Nil
  then show ?case by simp
next
  case (Cons e es)
  from Cons.prems(1) obtain nd1 where
    a: "applyEntry call e nm nd = Inr nd1" and r: "apply_entries call nm es nd1 = Inr nd'"
    by (auto split: sum.splits)
  from Cons.prems(2) have o: "pe_kind e \<noteq> kd \<or> pe_key e \<noteq> k"
    and os: "\<forall>e \<in> set es. pe_kind e \<noteq> kd \<or> pe_key e \<noteq> k" by auto
  from applyEntry_other[OF a o] Cons.IH[OF r os] show ?case by simp
qed

lemma apply_entries_maps_ok:
  assumes "apply_entries call nm es nd = Inr nd'" and "maps_ok nd"
  shows "maps_ok nd'"
  using assms
proof (induction es arbitrary: nd)
  case Nil
  then show ?case by simp
next
  case (Cons e es)
  then show ?case by (auto split: sum.splits dest: applyEntry_maps_ok)
qed

subsection \<open>The imports from a child\<close>

lemma import_entries_fresh_keys:
  assumes "import_entries kind cname es nd = Inr nd'" and "map_of es k \<noteq> None"
  shows "\<not> has_in k (rt_providers nd kind)"
  using assms
proof (induction es arbitrary: nd)
  case Nil
  then show ?case by simp
next
  case (Cons a es)
  obtain k0 v0 where a: "a = (k0, v0)" by (cases a)
  let ?nd1 = "nd\<lparr>rt_providers := (rt_providers nd)(kind := obj_set k0 v0 (rt_providers nd kind)),
      rt_providerOrigins := AList.update (kind, k0)
         \<lparr>po_kind = kind, po_key = k0, po_moduleName = cname, po_isExported = True\<rparr>
         (rt_providerOrigins nd)\<rparr>"
  from Cons.prems(1) have nh: "\<not> has_in k0 (rt_providers nd kind)"
    and r: "import_entries kind cname es ?nd1 = Inr nd'"
    unfolding a by (auto split: if_splits)
  show ?case
  proof (cases "map_of es k")
    case None
    with Cons.prems(2) a have "k = k0" by (auto split: if_splits)
    with nh show ?thesis by simp
  next
    case (Some v)
    with Cons.IH[OF r] have "\<not> has_in k (rt_providers ?nd1 kind)" by simp
    then show ?thesis
      using proto_not_key[OF nh]
      by (auto simp: has_in_map_of map_of_obj_set split: if_splits)
  qed
qed

lemma import_entries_look:
  assumes "import_entries kind cname es nd = Inr nd'"
  shows "look (rt_providers nd') kd k =
           (if kd = kind then (case map_of es k of Some v \<Rightarrow> Some v
                               | None \<Rightarrow> look (rt_providers nd) kd k)
            else look (rt_providers nd) kd k) \<and>
         rt_exportedProviders nd' = rt_exportedProviders nd \<and>
         rt_propagatedProviders nd' = rt_propagatedProviders nd"
  using assms
proof (induction es arbitrary: nd)
  case Nil
  then show ?case by simp
next
  case (Cons a es)
  obtain k0 v0 where a: "a = (k0, v0)" by (cases a)
  let ?nd1 = "nd\<lparr>rt_providers := (rt_providers nd)(kind := obj_set k0 v0 (rt_providers nd kind)),
      rt_providerOrigins := AList.update (kind, k0)
         \<lparr>po_kind = kind, po_key = k0, po_moduleName = cname, po_isExported = True\<rparr>
         (rt_providerOrigins nd)\<rparr>"
  from Cons.prems(1) have nh: "\<not> has_in k0 (rt_providers nd kind)"
    and r: "import_entries kind cname es ?nd1 = Inr nd'"
    unfolding a by (auto split: if_splits)
  have k0_once: "map_of es k0 = None"
  proof (rule ccontr)
    assume "map_of es k0 \<noteq> None"
    from import_entries_fresh_keys[OF r this] proto_not_key[OF nh]
    show False by (simp add: has_in_map_of map_of_obj_set)
  qed
  from Cons.IH[OF r] k0_once proto_not_key[OF nh] show ?case
    by (auto simp: a look_def map_of_obj_set split: option.splits)
qed

lemma import_entries_maps_ok:
  assumes "import_entries kind cname es nd = Inr nd'" and "maps_ok nd"
  shows "maps_ok nd'"
  using assms
proof (induction es arbitrary: nd)
  case Nil
  then show ?case by simp
next
  case (Cons a es)
  obtain k0 v0 where a: "a = (k0, v0)" by (cases a)
  let ?nd1 = "nd\<lparr>rt_providers := (rt_providers nd)(kind := obj_set k0 v0 (rt_providers nd kind)),
      rt_providerOrigins := AList.update (kind, k0)
         \<lparr>po_kind = kind, po_key = k0, po_moduleName = cname, po_isExported = True\<rparr>
         (rt_providerOrigins nd)\<rparr>"
  from Cons.prems(1) have r: "import_entries kind cname es ?nd1 = Inr nd'"
    unfolding a by (auto split: if_splits)
  have "maps_ok ?nd1" using Cons.prems(2) by (simp add: maps_ok_def ok_obj_set)
  from Cons.IH[OF r this] show ?case .
qed

lemma import_kinds_look:
  assumes "import_kinds PROVIDER_KINDS child nd = Inr nd'"
  shows "look (rt_providers nd') kd k =
           (case look (rt_exportedProviders child) kd k of Some v \<Rightarrow> Some v
            | None \<Rightarrow> look (rt_providers nd) kd k) \<and>
         rt_exportedProviders nd' = rt_exportedProviders nd \<and>
         rt_propagatedProviders nd' = rt_propagatedProviders nd"
proof -
  from assms obtain nd1 where
    i1: "import_entries Decorator (rt_name child) (rt_exportedProviders child Decorator) nd = Inr nd1"
    and i2: "import_entries Store (rt_name child) (rt_exportedProviders child Store) nd1 = Inr nd'"
    by (auto simp: PROVIDER_KINDS_def split: sum.splits)
  from import_entries_look[OF i1, of kd k] import_entries_look[OF i2, of kd k]
  show ?thesis by (cases kd) (auto simp: look_def split: option.splits)
qed

lemma import_kinds_fresh_keys:
  assumes "import_kinds PROVIDER_KINDS child nd = Inr nd'"
    and "look (rt_exportedProviders child) kd k \<noteq> None"
  shows "look (rt_providers nd) kd k = None"
proof -
  from assms obtain nd1 where
    i1: "import_entries Decorator (rt_name child) (rt_exportedProviders child Decorator) nd = Inr nd1"
    and i2: "import_entries Store (rt_name child) (rt_exportedProviders child Store) nd1 = Inr nd'"
    by (auto simp: PROVIDER_KINDS_def split: sum.splits)
  show ?thesis
  proof (cases kd)
    case Decorator
    with import_entries_fresh_keys[OF i1, of k] assms(2) show ?thesis
      by (simp add: look_def has_in_map_of)
  next
    case Store
    with import_entries_fresh_keys[OF i2, of k] assms(2)
    have "look (rt_providers nd1) Store k = None" by (simp add: look_def has_in_map_of)
    with import_entries_look[OF i1, of Store k] Store show ?thesis by simp
  qed
qed

lemma import_kinds_maps_ok:
  assumes "import_kinds ks child nd = Inr nd'" and "maps_ok nd"
  shows "maps_ok nd'"
  using assms
proof (induction ks arbitrary: nd)
  case Nil
  then show ?case by simp
next
  case (Cons a ks)
  then show ?case by (auto split: sum.splits dest: import_entries_maps_ok)
qed

lemma propagate_kinds_eq:
  "propagate_kinds PROVIDER_KINDS child nd =
     nd\<lparr>rt_exportedProviders := (\<lambda>kd. obj_assign (rt_exportedProviders nd kd)
                                         (rt_propagatedProviders child kd)),
        rt_propagatedProviders := (\<lambda>kd. obj_assign (rt_propagatedProviders nd kd)
                                           (rt_propagatedProviders child kd))\<rparr>"
proof -
  have e: "(f(Decorator := g Decorator, Store := g Store)) = g" for f g :: by_kind
  proof
    fix kd show "(f(Decorator := g Decorator, Store := g Store)) kd = g kd" by (cases kd) auto
  qed
  show ?thesis
    by (simp add: PROVIDER_KINDS_def e[of _ "\<lambda>kd. obj_assign (rt_exportedProviders nd kd)
                                         (rt_propagatedProviders child kd)"]
        e[of _ "\<lambda>kd. obj_assign (rt_propagatedProviders nd kd)
                                         (rt_propagatedProviders child kd)"])
qed

lemma look_assign:
  assumes "distinct (map fst (src kd))" and "k \<noteq> ''__proto__''"
  shows "look (\<lambda>kd. obj_assign (tgt kd) (src kd)) kd k =
           (case look src kd k of Some v \<Rightarrow> Some v | None \<Rightarrow> look tgt kd k)"
proof (cases "look src kd k")
  case None
  then show ?thesis by (simp add: look_def map_of_obj_assign_absent)
next
  case (Some v)
  then show ?thesis using assms by (simp add: look_def map_of_obj_assign_present)
qed

lemma import_child_look:
  assumes "import_child child e nd = Inr nd'" and "maps_ok child" and "k \<noteq> ''__proto__''"
  shows "look (rt_providers nd') kd k =
           (case look (rt_exportedProviders child) kd k of Some v \<Rightarrow> Some v
            | None \<Rightarrow> look (rt_providers nd) kd k) \<and>
         look (rt_exportedProviders nd') kd k =
           (if ue_transitive e \<noteq> Some False
            then (case look (rt_propagatedProviders child) kd k of Some v \<Rightarrow> Some v
                  | None \<Rightarrow> look (rt_exportedProviders nd) kd k)
            else look (rt_exportedProviders nd) kd k) \<and>
         look (rt_propagatedProviders nd') kd k =
           (if ue_transitive e \<noteq> Some False
            then (case look (rt_propagatedProviders child) kd k of Some v \<Rightarrow> Some v
                  | None \<Rightarrow> look (rt_propagatedProviders nd) kd k)
            else look (rt_propagatedProviders nd) kd k)"
proof -
  from assms(1) obtain nd1 where
    i: "import_kinds PROVIDER_KINDS child nd = Inr nd1"
    and n: "nd' = (if ue_transitive e \<noteq> Some False
                   then propagate_kinds PROVIDER_KINDS child nd1 else nd1)"
    by (auto simp: import_child_def split: sum.splits)
  from assms(2) have d: "distinct (map fst (rt_propagatedProviders child kd))"
    by (simp add: maps_ok_def ok_obj_def)
  from import_kinds_look[OF i, of kd k] show ?thesis
    unfolding n
    by (simp add: propagate_kinds_eq
        look_assign[where src = "rt_propagatedProviders child", OF d assms(3)])
qed

lemma import_child_fresh_keys:
  assumes "import_child child e nd = Inr nd'"
    and "look (rt_exportedProviders child) kd k \<noteq> None"
  shows "look (rt_providers nd) kd k = None"
  using assms
  by (auto simp: import_child_def split: sum.splits dest: import_kinds_fresh_keys)

lemma import_child_maps_ok:
  assumes "import_child child e nd = Inr nd'" and "maps_ok nd"
  shows "maps_ok nd'"
proof -
  from assms(1) obtain nd1 where
    i: "import_kinds PROVIDER_KINDS child nd = Inr nd1"
    and n: "nd' = (if ue_transitive e \<noteq> Some False
                   then propagate_kinds PROVIDER_KINDS child nd1 else nd1)"
    by (auto simp: import_child_def split: sum.splits)
  from import_kinds_maps_ok[OF i assms(2)] show ?thesis
    unfolding n by (simp add: propagate_kinds_eq maps_ok_def ok_obj_assign)
qed

lemma import_children_maps_ok:
  assumes "import_children h self cs es nd = Inr nd'" and "maps_ok nd"
  shows "maps_ok nd'"
  using assms
proof (induction h self cs es nd rule: import_children.induct)
  case (3 h self c cs e es nd)
  then show ?case by (auto split: sum.splits dest: import_child_maps_ok)
qed simp_all

lemma init_result_maps_ok:
  assumes "init_result call ds h i nd = Inr nd'" and "maps_ok nd"
  shows "maps_ok nd'"
proof -
  from assms(1) obtain nd1 nd2 where
    "import_children h i (rt_children nd) (md_uses (ds (rt_def nd))) nd = Inr nd1"
    "apply_entries call (rt_name nd) (md_providers (ds (rt_def nd))) nd1 = Inr nd2"
    "nd' = nd2\<lparr>rt_callbackCtx := Some (mk_ctx (rt_providers nd2 Decorator) (rt_providers nd2 Store)),
               rt_initialized := True\<rparr>"
    by (auto simp: init_result_def split: sum.splits)
  with import_children_maps_ok[OF this(1) assms(2)] apply_entries_maps_ok[OF this(2)]
  show ?thesis by (simp add: maps_ok_def)
qed

text \<open>What one child exports stays imported while the later children are imported.\<close>

lemma import_children_keeps:
  assumes "import_children h self cs es nd = Inr nd'"
    and "look (rt_providers nd) kd k = Some v"
    and "\<forall>c \<in> set cs. c \<noteq> self \<and> maps_ok (h c)"
    and "k \<noteq> ''__proto__''"
  shows "look (rt_providers nd') kd k = Some v"
  using assms
proof (induction h self cs es nd rule: import_children.induct)
  case (3 h self c cs e es nd)
  from "3.prems"(3) have cs: "c \<noteq> self" and dc: "maps_ok (h c)"
    and rest: "\<forall>c \<in> set cs. c \<noteq> self \<and> maps_ok (h c)" by auto
  from "3.prems"(1) cs obtain nd1 where
    i: "import_child (h c) e nd = Inr nd1" and r: "import_children h self cs es nd1 = Inr nd'"
    by (auto split: sum.splits)
  have "look (rt_exportedProviders (h c)) kd k = None"
  proof (cases "look (rt_exportedProviders (h c)) kd k")
    case (Some y)
    then have "look (rt_exportedProviders (h c)) kd k \<noteq> None" by simp
    from import_child_fresh_keys[OF i this] "3.prems"(2) show ?thesis by simp
  qed simp
  with import_child_look[OF i dc "3.prems"(4), of kd] "3.prems"(2)
  have "look (rt_providers nd1) kd k = Some v" by simp
  from "3.IH"[OF _ r this rest "3.prems"(4)] i cs show ?case by simp
qed simp_all

lemma import_children_imports:
  assumes "import_children h self cs es nd = Inr nd'"
    and "j < length cs" and "j < length es"
    and "look (rt_exportedProviders (h (cs ! j))) kd k = Some v"
    and "\<forall>c \<in> set cs. c \<noteq> self \<and> maps_ok (h c)"
    and "k \<noteq> ''__proto__''"
  shows "look (rt_providers nd') kd k = Some v"
  using assms
proof (induction h self cs es nd arbitrary: j rule: import_children.induct)
  case (3 h self c cs e es nd)
  from "3.prems"(5) have cs: "c \<noteq> self" and dc: "maps_ok (h c)"
    and rest: "\<forall>c \<in> set cs. c \<noteq> self \<and> maps_ok (h c)" by auto
  from "3.prems"(1) cs obtain nd1 where
    i: "import_child (h c) e nd = Inr nd1" and r: "import_children h self cs es nd1 = Inr nd'"
    by (auto split: sum.splits)
  show ?case
  proof (cases j)
    case 0
    with "3.prems"(4) import_child_look[OF i dc "3.prems"(6), of kd]
    have "look (rt_providers nd1) kd k = Some v" by simp
    from import_children_keeps[OF r this rest "3.prems"(6)] show ?thesis .
  next
    case (Suc j')
    with "3.prems" have "j' < length cs" "j' < length es"
      "look (rt_exportedProviders (h (cs ! j'))) kd k = Some v" by auto
    from "3.IH"[OF _ r this rest "3.prems"(6)] i cs show ?thesis by simp
  qed
qed simp_all

subsection \<open>The callback context\<close>

lemma ctx_lookup_mk_ctx:
  "ctx_lookup kd k (mk_ctx dec st) = map_of (case kd of Decorator \<Rightarrow> dec | Store \<Rightarrow> st) k"
  by (cases kd) (simp_all add: ctx_lookup_def mk_ctx_def update_conv')

lemma init_result_ctx:
  assumes "init_result call ds h i nd = Inr nd'"
  shows "\<exists>c. rt_callbackCtx nd' = Some c \<and> (\<forall>kd k. ctx_lookup kd k c = look (rt_providers nd') kd k)"
proof -
  from assms obtain nd2 where
    "nd' = nd2\<lparr>rt_callbackCtx := Some (mk_ctx (rt_providers nd2 Decorator) (rt_providers nd2 Store)),
               rt_initialized := True\<rparr>"
    by (auto simp: init_result_def split: sum.splits)
  then show ?thesis
    by (auto simp: ctx_lookup_mk_ctx look_def split: ProviderKind.splits)
qed

subsection \<open>Exports are held, propagations are exported\<close>

lemma applyEntry_nested:
  assumes "applyEntry call e nm nd = Inr nd'" and "nested nd"
  shows "nested nd'"
  using assms
  unfolding nested_def
  by (auto simp: applyEntry_def Let_def look_def map_of_obj_set map_of_obj_delete
      split: if_splits sum.splits)

lemma apply_entries_nested:
  assumes "apply_entries call nm es nd = Inr nd'" and "nested nd"
  shows "nested nd'"
  using assms
proof (induction es arbitrary: nd)
  case Nil
  then show ?case by simp
next
  case (Cons e es)
  then show ?case by (auto split: sum.splits dest: applyEntry_nested)
qed

lemma ok_look_proto:
  "maps_ok nd \<Longrightarrow>
     look (rt_providers nd) kd ''__proto__'' = None \<and>
     look (rt_exportedProviders nd) kd ''__proto__'' = None \<and>
     look (rt_propagatedProviders nd) kd ''__proto__'' = None"
  by (simp add: maps_ok_def ok_obj_def look_def)

lemma import_child_nested:
  assumes i: "import_child child e nd = Inr nd'"
    and "maps_ok child" and "nested child" and "maps_ok nd" and "nested nd"
  shows "nested nd'"
  unfolding nested_def
proof (intro allI)
  fix kd k
  show "(look (rt_propagatedProviders nd') kd k \<noteq> None
                \<longrightarrow> look (rt_exportedProviders nd') kd k \<noteq> None) \<and>
             (look (rt_exportedProviders nd') kd k \<noteq> None
                \<longrightarrow> look (rt_providers nd') kd k \<noteq> None)"
  proof (cases "k = ''__proto__''")
    case True
    from import_child_maps_ok[OF i assms(4)] have "maps_ok nd'" .
    from ok_look_proto[OF this, of kd] True show ?thesis by simp
  next
    case False
    from assms(3) have c: "look (rt_propagatedProviders child) kd k \<noteq> None
                \<longrightarrow> look (rt_exportedProviders child) kd k \<noteq> None"
      by (simp add: nested_def)
    from assms(5) have n: "look (rt_propagatedProviders nd) kd k \<noteq> None
                \<longrightarrow> look (rt_exportedProviders nd) kd k \<noteq> None"
      "look (rt_exportedProviders nd) kd k \<noteq> None
                \<longrightarrow> look (rt_providers nd) kd k \<noteq> None"
      by (simp_all add: nested_def)
    from import_child_look[OF i assms(2) False, of kd] c n show ?thesis
      by (auto split: option.splits if_splits)
  qed
qed

lemma import_children_nested:
  assumes "import_children h self cs es nd = Inr nd'"
    and "\<forall>c \<in> set cs. c \<noteq> self \<and> maps_ok (h c) \<and> nested (h c)"
    and "maps_ok nd" and "nested nd"
  shows "nested nd'"
  using assms
proof (induction h self cs es nd rule: import_children.induct)
  case (3 h self c cs e es nd)
  from "3.prems"(2) have cs: "c \<noteq> self" and dc: "maps_ok (h c)" and nc: "nested (h c)"
    and rest: "\<forall>c \<in> set cs. c \<noteq> self \<and> maps_ok (h c) \<and> nested (h c)" by auto
  from "3.prems"(1) cs obtain nd1 where
    i: "import_child (h c) e nd = Inr nd1" and r: "import_children h self cs es nd1 = Inr nd'"
    by (auto split: sum.splits)
  from import_child_nested[OF i dc nc "3.prems"(3,4)] import_child_maps_ok[OF i "3.prems"(3)]
  have "nested nd1" "maps_ok nd1" .
  from "3.IH"[OF _ r rest this(2,1)] i cs show ?case by simp
qed simp_all

lemma new_node_good [simp]: "maps_ok (new_node nm d cs)" "nested (new_node nm d cs)"
  by (simp_all add: maps_ok_def nested_def new_node_def look_def)

lemma init_result_nested:
  assumes "init_result call ds h i nd = Inr nd'"
    and "\<forall>c \<in> set (rt_children nd). c \<noteq> i \<and> maps_ok (h c) \<and> nested (h c)"
    and "maps_ok nd" and "nested nd"
  shows "nested nd'"
proof -
  from assms(1) obtain nd1 nd2 where
    1: "import_children h i (rt_children nd) (md_uses (ds (rt_def nd))) nd = Inr nd1"
    and 2: "apply_entries call (rt_name nd) (md_providers (ds (rt_def nd))) nd1 = Inr nd2"
    and 3: "nd' = nd2\<lparr>rt_callbackCtx := Some (mk_ctx (rt_providers nd2 Decorator) (rt_providers nd2 Store)),
               rt_initialized := True\<rparr>"
    by (auto simp: init_result_def split: sum.splits)
  from import_children_nested[OF 1 assms(2,3,4)] have "nested nd1" .
  from apply_entries_nested[OF 2 this] show ?thesis unfolding 3 by (simp add: nested_def)
qed

lemma settled_good:
  assumes "\<forall>i<n. settled call ds h0 h i"
    and "\<forall>i<n. h0 i = new_node (rt_name (h0 i)) (rt_def (h0 i)) (rt_children (h0 i)) \<and>
                (\<forall>c\<in>set (rt_children (h0 i)). c < i)"
  shows "i < n \<Longrightarrow> maps_ok (h i) \<and> nested (h i)"
proof (induction i rule: less_induct)
  case (less i)
  from assms(1) less.prems have s: "init_result call ds h i (h0 i) = Inr (h i)"
    by (simp add: settled_def)
  from assms(2) less.prems obtain nm d cs where n: "h0 i = new_node nm d cs"
    and o: "\<forall>c\<in>set (rt_children (h0 i)). c < i" by blast
  have ch: "\<forall>c \<in> set (rt_children (h0 i)). c \<noteq> i \<and> maps_ok (h c) \<and> nested (h c)"
    using o less.IH less.prems by fastforce
  have g: "maps_ok (h0 i)" "nested (h0 i)" by (simp_all add: n)
  from init_result_maps_ok[OF s g(1)] init_result_nested[OF s ch g]
  show ?case by simp
qed

subsection \<open>Entries in sequence\<close>


subsection \<open>The load callbacks of a successful start\<close>

lemma run_load_frame:
  assumes "run_load call ds ord h w = (h', w', r)" and "j \<notin> set ord"
  shows "h' j = h j"
  using assms
proof (induction ord arbitrary: h w)
  case Nil
  then show ?case by simp
next
  case (Cons i rest)
  show ?case
  proof (cases "initModule call ds i h")
    case (Inl e)
    with Cons.prems show ?thesis by simp
  next
    case (Inr h1)
    from initModule_frame[OF Inr] Cons.prems(2) have f: "h1 j = h j" by simp
    obtain w1 r1 where cb: "run_callbacks (md_loadCallbacks (ds (rt_def (h1 i))))
        (rt_callbackCtx (h1 i)) w = (w1, r1)"
      by (cases "run_callbacks (md_loadCallbacks (ds (rt_def (h1 i)))) (rt_callbackCtx (h1 i)) w")
    show ?thesis
    proof (cases r1)
      case None
      with Cons.prems Inr cb have "run_load call ds rest h1 w1 = (h', w', r)" by simp
      from Cons.IH[OF this] Cons.prems(2) f show ?thesis by simp
    next
      case (Some e)
      with Cons.prems Inr cb f show ?thesis by simp
    qed
  qed
qed

lemma run_load_world:
  assumes "run_load call ds ord h w = (h', w', None)" and "distinct ord"
  shows "run_loaded ds ord h' w = (w', None)"
  using assms
proof (induction ord arbitrary: h w)
  case Nil
  then show ?case by simp
next
  case (Cons i rest)
  show ?case
  proof (cases "initModule call ds i h")
    case (Inl e)
    with Cons.prems show ?thesis by simp
  next
    case (Inr h1)
    obtain w1 r1 where cb: "run_callbacks (md_loadCallbacks (ds (rt_def (h1 i))))
        (rt_callbackCtx (h1 i)) w = (w1, r1)"
      by (cases "run_callbacks (md_loadCallbacks (ds (rt_def (h1 i)))) (rt_callbackCtx (h1 i)) w")
    show ?thesis
    proof (cases r1)
      case None
      with Cons.prems Inr cb have rl: "run_load call ds rest h1 w1 = (h', w', None)" by simp
      from Cons.prems(2) have "i \<notin> set rest" "distinct rest" by simp_all
      from run_load_frame[OF rl this(1)] Cons.IH[OF rl this(2)] cb None
      show ?thesis by simp
    next
      case (Some e)
      with Cons.prems Inr cb show ?thesis by simp
    qed
  qed
qed

subsection \<open>The keys of the cache\<close>

lemma buildTree_cache_ok:
  assumes "buildTree ds nm d k st = Some r"
  shows "keys_ok ds r0 d k \<longrightarrow> cache_ok ds r0 st \<longrightarrow> cache_ok ds r0 (snd r)"
proof (rule buildTree.raw_induct[where P = "\<lambda>ds nm d k st r.
          keys_ok ds r0 d k \<longrightarrow> cache_ok ds r0 st \<longrightarrow> cache_ok ds r0 (snd r)",
        OF _ assms])
  fix bt :: "'a defs \<Rightarrow> string \<Rightarrow> def_id \<Rightarrow> cache_key \<Rightarrow> build_state
               \<Rightarrow> (node_id \<times> build_state) option"
  fix ds nm d k st r
  assume IH: "\<And>ds nm d k st r. bt ds nm d k st = Some r \<Longrightarrow>
          keys_ok ds r0 d k \<longrightarrow> cache_ok ds r0 st \<longrightarrow> cache_ok ds r0 (snd r)"
    and body: "(if cache_get (bs_cache st) d k \<noteq> None
          then Some (the (cache_get (bs_cache st) d k), st)
          else Option.bind
                 (mapM_st (\<lambda>u s. bt ds (ue_name u) (ue_def u) (edge_key u) s)
                    (md_uses (ds d)) (ensure_byScope d st))
                 (\<lambda>r. Some (store_node nm d k (fst r) (snd r)))) = Some r"
  show "keys_ok ds r0 d k \<longrightarrow> cache_ok ds r0 st \<longrightarrow> cache_ok ds r0 (snd r)"
  proof (intro impI)
    assume ko: "keys_ok ds r0 d k" and co: "cache_ok ds r0 st"
    show "cache_ok ds r0 (snd r)"
    proof (cases "cache_get (bs_cache st) d k \<noteq> None")
      case True
      with body co show ?thesis by auto
    next
      case False
      with body obtain cs st2 where
        m: "mapM_st (\<lambda>u s. bt ds (ue_name u) (ue_def u) (edge_key u) s) (md_uses (ds d))
              (ensure_byScope d st) = Some (cs, st2)"
        and r: "r = store_node nm d k cs st2"
        by (auto split: bind_splits)
      have c1: "cache_ok ds r0 (ensure_byScope d st)"
        using co by (simp add: cache_ok_def)
      have "cache_ok ds r0 st2"
      proof (rule mapM_st_preserves[where Q = "cache_ok ds r0", OF m c1])
        fix x t y t'
        assume x: "x \<in> set (md_uses (ds d))"
          and b: "bt ds (ue_name x) (ue_def x) (edge_key x) t = Some (y, t')"
          and c: "cache_ok ds r0 t"
        from x have "keys_ok ds r0 (ue_def x) (edge_key x)" by (auto simp: keys_ok_def)
        with IH[OF b] c show "cache_ok ds r0 t'" by simp
      qed
      with ko show ?thesis unfolding r
        by (auto simp: cache_ok_def cache_get_store split: if_splits)
    qed
  qed
qed

lemma cache_ok_empty: "cache_ok ds r0 empty_build"
  by (simp add: cache_ok_def empty_build_def cache_get_def)

subsection \<open>Reading a well-formed build state\<close>

lemma wf_build_older:
  "wf_build ds st \<Longrightarrow> i < bs_next st \<Longrightarrow> c \<in> set (rt_children (bs_nodes st i)) \<Longrightarrow> c < i"
  unfolding wf_build_def by blast

lemma wf_build_fresh:
  "wf_build ds st \<Longrightarrow> i < bs_next st \<Longrightarrow>
     bs_nodes st i = new_node (rt_name (bs_nodes st i)) (rt_def (bs_nodes st i))
                       (rt_children (bs_nodes st i))"
  unfolding wf_build_def by blast

lemma wf_build_edges:
  "wf_build ds st \<Longrightarrow> i < bs_next st \<Longrightarrow>
     map (\<lambda>u. cache_get (bs_cache st) (ue_def u) (edge_key u))
          (md_uses (ds (rt_def (bs_nodes st i)))) = map Some (rt_children (bs_nodes st i))"
  unfolding wf_build_def by blast

lemma wf_build_child:
  assumes "wf_build ds st" and "i < bs_next st"
    and "j < length (md_uses (ds (rt_def (bs_nodes st i))))"
  shows "j < length (rt_children (bs_nodes st i)) \<and>
         cache_get (bs_cache st) (ue_def (md_uses (ds (rt_def (bs_nodes st i))) ! j))
           (edge_key (md_uses (ds (rt_def (bs_nodes st i))) ! j))
         = Some (rt_children (bs_nodes st i) ! j)"
proof -
  note e = wf_build_edges[OF assms(1,2)]
  from arg_cong[OF e, of length] assms(3) have l: "j < length (rt_children (bs_nodes st i))"
    by simp
  from arg_cong[OF e, of "\<lambda>xs. xs ! j"] assms(3) l show ?thesis by simp
qed

subsection \<open>The start of an acyclic definition graph\<close>

lemma build_ranked_root:
  assumes "ranked ds rk D" and "d \<in> D"
  shows "\<exists>root st. buildTree ds nm d RootKey empty_build = Some (root, st) \<and>
           wf_build ds st \<and> cache_ok ds d st \<and> root < bs_next st \<and>
           cache_get (bs_cache st) d RootKey = Some root \<and>
           (\<forall>H. (\<forall>i < bs_next st. rt_children (H i) = rt_children (bs_nodes st i)) \<longrightarrow>
                lifecycleOrder H root = Some [0..<bs_next st])"
proof -
  from buildTree_ranked[OF assms wf_build_empty, of nm RootKey] obtain root st where
    b: "buildTree ds nm d RootKey empty_build = Some (root, st)"
    and ok: "built_ok ds rk d RootKey empty_build root st" by blast
  from ok have wf: "wf_build ds st" and c: "cache_get (bs_cache st) d RootKey = Some root"
    and v: "visits empty_build st (\<lambda>H. visit H root)"
    by (simp_all add: built_ok_def)
  from wf_build_bound[OF wf c] have lt: "root < bs_next st" by simp
  have co: "cache_ok ds d st"
    using buildTree_cache_ok[OF b, of d] cache_ok_empty[of ds d]
    by (simp add: keys_ok_def)
  have "lifecycleOrder H root = Some [0..<bs_next st]"
    if "\<forall>i < bs_next st. rt_children (H i) = rt_children (bs_nodes st i)" for H :: heap
  proof -
    from v that have "visit H root ([], {0..<bs_next empty_build} \<union> {})
        = Some ([] @ [bs_next empty_build..<bs_next st], {0..<bs_next st} \<union> {})"
      unfolding visits_def by blast
    then show ?thesis by (simp add: lifecycleOrder_def empty_build_def)
  qed
  then have lall: "\<forall>H. (\<forall>i < bs_next st. rt_children (H i) = rt_children (bs_nodes st i)) \<longrightarrow>
                lifecycleOrder H root = Some [0..<bs_next st]" by blast
  show ?thesis by (intro exI[of _ root] exI[of _ st] conjI b wf co lt c lall)
qed


subsection \<open>The nodes a run has initialised\<close>

lemma run_ranked:
  assumes wf: "wf_build ds st"
    and rl: "run_load call ds [0..<bs_next st] (bs_nodes st) w = (h', w', r)"
  shows "\<exists>m \<le> bs_next st.
           (\<forall>i<m. settled call ds (bs_nodes st) h' i \<and> maps_ok (h' i) \<and> nested (h' i)) \<and>
           (\<forall>i<bs_next st. rt_initialized (h' i) \<longrightarrow> i < m) \<and>
           (r = None \<longrightarrow> m = bs_next st)"
proof -
  have fresh: "\<forall>i<bs_next st. \<not> rt_initialized (bs_nodes st i) \<and>
                 (\<forall>c\<in>set (rt_children (bs_nodes st i)). c < i)"
  proof (intro allI impI conjI ballI)
    fix i assume i: "i < bs_next st"
    from wf_build_fresh[OF wf i] have "rt_initialized (bs_nodes st i) = rt_initialized
      (new_node (rt_name (bs_nodes st i)) (rt_def (bs_nodes st i)) (rt_children (bs_nodes st i)))"
      by simp
    then show "\<not> rt_initialized (bs_nodes st i)" by (simp add: new_node_def)
    fix c assume "c \<in> set (rt_children (bs_nodes st i))"
    from wf_build_older[OF wf i this] show "c < i" .
  qed
  from run_load_settles[OF rl, of "bs_nodes st"] fresh
  obtain m where m: "m \<le> bs_next st" and se: "\<forall>i<m. settled call ds (bs_nodes st) h' i"
    and un: "\<forall>i\<ge>m. h' i = bs_nodes st i" and rn: "r = None \<longrightarrow> m = bs_next st" by auto
  have fr2: "\<forall>i<m. bs_nodes st i =
      new_node (rt_name (bs_nodes st i)) (rt_def (bs_nodes st i)) (rt_children (bs_nodes st i)) \<and>
                (\<forall>c\<in>set (rt_children (bs_nodes st i)). c < i)"
    using wf_build_fresh[OF wf] wf_build_older[OF wf] m by (meson less_le_trans)
  have good: "\<forall>i<m. settled call ds (bs_nodes st) h' i \<and> maps_ok (h' i) \<and> nested (h' i)"
    using se settled_good[OF se fr2] by blast
  have ini: "\<forall>i<bs_next st. rt_initialized (h' i) \<longrightarrow> i < m"
  proof (intro allI impI)
    fix i assume i: "i < bs_next st" and r: "rt_initialized (h' i)"
    show "i < m"
    proof (rule ccontr)
      assume "\<not> i < m"
      with un have "h' i = bs_nodes st i" by simp
      with r fresh i show False by simp
    qed
  qed
  show ?thesis using m good ini rn by blast
qed

lemma settled_imports:
  assumes s: "init_result call ds h p nd0 = Inr nd'"
    and j: "j < length (rt_children nd0)" "j < length (md_uses (ds (rt_def nd0)))"
    and ch: "\<forall>c \<in> set (rt_children nd0). c \<noteq> p \<and> maps_ok (h c)"
    and e: "look (rt_exportedProviders (h (rt_children nd0 ! j))) kd k = Some v"
    and own: "\<not> declares ds (rt_def nd0) kd k"
  shows "\<exists>c. rt_callbackCtx nd' = Some c \<and> ctx_lookup kd k c = Some v"
proof -
  from s obtain nd1 nd2 where
    1: "import_children h p (rt_children nd0) (md_uses (ds (rt_def nd0))) nd0 = Inr nd1"
    and 2: "apply_entries call (rt_name nd0) (md_providers (ds (rt_def nd0))) nd1 = Inr nd2"
    and 3: "nd' = nd2\<lparr>rt_callbackCtx := Some (mk_ctx (rt_providers nd2 Decorator) (rt_providers nd2 Store)),
               rt_initialized := True\<rparr>"
    by (auto simp: init_result_def split: sum.splits)
  from ch j(1) have "maps_ok (h (rt_children nd0 ! j))" by simp
  then have "ok_obj (rt_exportedProviders (h (rt_children nd0 ! j)) kd)"
    by (simp add: maps_ok_def)
  from ok_obj_key[OF this] e have np: "k \<noteq> ''__proto__''" by (simp add: look_def)
  from import_children_imports[OF 1 j e ch np]
  have "look (rt_providers nd1) kd k = Some v" .
  moreover from own have "\<forall>e \<in> set (md_providers (ds (rt_def nd0))). pe_kind e \<noteq> kd \<or> pe_key e \<noteq> k"
    by (auto simp: declares_def)
  from apply_entries_other[OF 2 this]
  have "look (rt_providers nd2) kd k = look (rt_providers nd1) kd k" by simp
  ultimately have "look (rt_providers nd') kd k = Some v" by (simp add: 3)
  with init_result_ctx[OF s] show ?thesis by auto
qed

subsection \<open>The shared module, built and started\<close>

lemma diamond_build:
  "\<exists>st. buildTree diamond_defs ''app'' 3 RootKey empty_build = Some (3, st) \<and> bs_next st = 4 \<and>
     bs_nodes st 0 = new_node ''shared'' 0 [] \<and>
     bs_nodes st 1 = new_node ''left'' 1 [0] \<and>
     bs_nodes st 2 = new_node ''right'' 2 [0] \<and>
     bs_nodes st 3 = new_node ''app'' 3 [1, 2]"
  by (simp add: buildTree.simps empty_build_def cache_get_def ensure_byScope_def store_node_def
        edge_key_def Let_def diamond_defs_def tower_eval eval_nat_numeral cong: eval_cong)

lemma diamond_start:
  "\<exists>A' t. start demo_call diamond_defs (instance_of ''app'' 3) []
            = Some (A', [''shared'', ''left'', ''right'', ''app''], None) \<and>
      a_runtimeTree A' = Some t \<and>
      look (rt_exportedProviders (t_nodes t 0)) Store ''counter'' = Some (VRef 7) \<and>
      rt_initialized (t_nodes t 1) \<and> rt_initialized (t_nodes t 2) \<and>
      rt_def (t_nodes t 1) = 1 \<and> rt_def (t_nodes t 2) = 2"
  by (simp add: runtime_eval tower_eval diamond_defs_def demo_call_def look_def cong: eval_cong)

subsection \<open>The scope of an entry along a chain\<close>

lemma pushEntry_declared_with:
  assumes "pushEntry own d key v cfg fs = Inr d'"
  shows "\<exists>e. md_providers d' = md_providers d @ [e] \<and> pe_kind e = cfg_kind cfg \<and> pe_key e = key \<and>
             pe_mode e = cfg_mode cfg \<and> declared_with (cfg_scope cfg) e"
  using assms by (auto simp: pushEntry_def Let_def declared_with_def split: if_splits)


lemma new_node_look [simp]:
  "look (rt_providers (new_node nm d cs)) kd k = None"
  "look (rt_exportedProviders (new_node nm d cs)) kd k = None"
  "look (rt_propagatedProviders (new_node nm d cs)) kd k = None"
  by (simp_all add: new_node_def look_def)






subsection \<open>The tower, started from the top\<close>

section \<open>The claims\<close>

text \<open>
  Claim C7. Reading \<^verbatim>\<open>context\<close> raises the not-started error exactly when the
  instance is not running. A fresh instance is coherent and its context raises. On a
  coherent instance \<^verbatim>\<open>start()\<close> and \<^verbatim>\<open>stop()\<close> keep coherence, the context raises
  if and only if \<^verbatim>\<open>isRunning\<close> is false, and after \<^verbatim>\<open>stop()\<close> the instance is not
  running. After any \<^verbatim>\<open>stop()\<close> the context raises. After a \<^verbatim>\<open>start()\<close> that
  succeeded the instance is running and the context is returned: it is the merged context
  of the root node, made from the root's decorators and store.
\<close>

theorem context_raises_iff_not_running:
  "(let fresh = construct nm d exts sys
    in coherent (sys_objects (snd fresh) (fst fresh)) \<and>
       get_context (sys_objects (snd fresh) (fst fresh)) = Inl (NotStarted nm)) \<and>
   (coherent a \<longrightarrow>
      (\<forall>a' w' r. start call ds a w = Some (a', w', r) \<or> stop ds a w = Some (a', w', r)
          \<longrightarrow> coherent a') \<and>
      ((\<exists>e. get_context a = Inl e) \<longleftrightarrow> \<not> isRunning a) \<and>
      (\<not> isRunning a \<longrightarrow> get_context a = Inl (NotStarted (a_name a))) \<and>
      (\<forall>a' w' r. stop ds a w = Some (a', w', r) \<longrightarrow> \<not> isRunning a')) \<and>
   (\<forall>a' w' r. stop ds a w = Some (a', w', r) \<longrightarrow>
      get_context a' = Inl (NotStarted (a_name a'))) \<and>
   (\<forall>a' w'. \<not> isRunning a \<and> start call ds a w = Some (a', w', None) \<longrightarrow>
      isRunning a' \<and>
      (\<exists>t. a_runtimeTree a' = Some t \<and>
           get_context a' = Inr (Some (mk_ctx (rt_providers (t_nodes t (t_root t)) Decorator)
                                          (rt_providers (t_nodes t (t_root t)) Store)))))"
proof -
  have p1: "let fresh = construct nm d exts sys
    in coherent (sys_objects (snd fresh) (fst fresh)) \<and>
       get_context (sys_objects (snd fresh) (fst fresh)) = Inl (NotStarted nm)"
    by (simp add: construct_def coherent_def get_context_def)
  have p3: "get_context a' = Inl (NotStarted (a_name a'))"
    if "stop ds a w = Some (a', w', r)" for a' w' r
    using stop_result[OF that] by (rule get_context_throws)
  have p2: "(\<forall>a' w' r. start call ds a w = Some (a', w', r) \<or> stop ds a w = Some (a', w', r)
          \<longrightarrow> coherent a') \<and>
      ((\<exists>e. get_context a = Inl e) \<longleftrightarrow> \<not> isRunning a) \<and>
      (\<not> isRunning a \<longrightarrow> get_context a = Inl (NotStarted (a_name a))) \<and>
      (\<forall>a' w' r. stop ds a w = Some (a', w', r) \<longrightarrow> \<not> isRunning a')" if c: "coherent a"
  proof -
    have "\<forall>a' w' r. start call ds a w = Some (a', w', r) \<or> stop ds a w = Some (a', w', r)
          \<longrightarrow> coherent a'"
      using start_coherent[where ds = ds and w = w, OF _ c]
        stop_coherent[where ds = ds and w = w, OF _ c]
      by blast
    moreover have "(\<exists>e. get_context a = Inl e) \<longleftrightarrow> \<not> isRunning a"
      using c by (auto simp: get_context_def coherent_def isRunning_def split: option.splits)
    moreover have "\<not> isRunning a \<longrightarrow> get_context a = Inl (NotStarted (a_name a))"
      by (simp add: get_context_throws isRunning_def)
    moreover have "\<forall>a' w' r. stop ds a w = Some (a', w', r) \<longrightarrow> \<not> isRunning a'"
      using c by (auto simp: stop_def coherent_def isRunning_def
          split: option.splits if_splits bind_splits prod.splits)
    ultimately show ?thesis by blast
  qed
  have p4: "\<forall>a' w'. \<not> isRunning a \<and> start call ds a w = Some (a', w', None) \<longrightarrow>
      isRunning a' \<and>
      (\<exists>t. a_runtimeTree a' = Some t \<and>
           get_context a' = Inr (Some (mk_ctx (rt_providers (t_nodes t (t_root t)) Decorator)
                                          (rt_providers (t_nodes t (t_root t)) Store))))"
    using start_success_context by (fastforce simp: isRunning_def)
  from p1 p2 p3 p4 show ?thesis by blast
qed

text \<open>
  The example: the application is coherent and not running, so its context raises; started
  in a world that is ready it runs and has a context; stopped again its context raises.
\<close>

theorem context_raises_iff_not_running_witness:
  "coherent demo_app \<and> \<not> isRunning demo_app \<and>
   get_context demo_app = Inl (NotStarted ''app'') \<and>
   (\<exists>a' w'. start demo_call demo_defs demo_app [''ready''] = Some (a', w', None) \<and>
      isRunning a' \<and> coherent a' \<and> (\<exists>c. get_context a' = Inr (Some c)) \<and>
      (\<exists>a'' w'' r. stop demo_defs a' w' = Some (a'', w'', r) \<and> \<not> isRunning a'' \<and>
         get_context a'' = Inl (NotStarted (a_name a''))))"
proof -
  have c: "coherent demo_app" and nr: "\<not> isRunning demo_app"
    by (simp_all add: coherent_def demo_app_def isRunning_def)
  from demo_start_ready obtain a' a'' where
    s: "start demo_call demo_defs demo_app [''ready'']
          = Some (a', [''ready'', ''Logger initialized'', ''App starting''], None)"
    and t: "stop demo_defs a' [''ready'', ''Logger initialized'', ''App starting'']
           = Some (a'', [''ready'', ''Logger initialized'', ''App starting'', ''App stopping''],
                   None)"
    by blast
  note at_app = context_raises_iff_not_running
    [where a = demo_app and call = demo_call and ds = demo_defs and w = "[''ready'']"]
  have ca': "coherent a'" using at_app c s by blast
  note at_a' = context_raises_iff_not_running
    [where a = a' and ds = demo_defs
       and w = "[''ready'', ''Logger initialized'', ''App starting'']"]
  have n: "a_name demo_app = ''app''" by (simp add: demo_app_def)
  have "get_context demo_app = Inl (NotStarted (a_name demo_app))"
    using at_app c nr by blast
  then have 1: "get_context demo_app = Inl (NotStarted ''app'')"
    using n by simp
  have 2: "isRunning a' \<and> (\<exists>c. get_context a' = Inr (Some c))"
    using at_app nr s by blast
  have 3: "\<not> isRunning a'' \<and> get_context a'' = Inl (NotStarted (a_name a''))"
    using at_a' ca' t by blast
  from c nr 1 2 3 ca' s t show ?thesis by blast
qed

text \<open>
  Claim C5. When a provider resolution step or an \<^verbatim>\<open>onLoad\<close> callback raises
  during \<^verbatim>\<open>start()\<close>, that is when the loop over the load order ends with an error,
  \<^verbatim>\<open>start()\<close> rejects with that error and leaves the instance not started: no tree,
  not running, a context that raises. A later \<^verbatim>\<open>start()\<close> of that instance does
  what a \<^verbatim>\<open>start()\<close> of the instance before the failed attempt would do.
\<close>

theorem failed_start_resets:
  assumes "\<not> isRunning a"
    and "buildTree ds (a_name a) (a_def a) RootKey empty_build = Some (root, st)"
    and "lifecycleOrder (bs_nodes st) root = Some ord"
  shows "(\<forall>h' w' e. run_load call ds ord (bs_nodes st) w = (h', w', Some e) \<longrightarrow>
            (\<exists>a'. start call ds a w = Some (a', w', Some e))) \<and>
         (\<forall>a' w' e. start call ds a w = Some (a', w', Some e) \<longrightarrow>
            (\<exists>h'. run_load call ds ord (bs_nodes st) w = (h', w', Some e)) \<and>
            \<not> isRunning a' \<and> a_runtimeTree a' = None \<and>
            get_context a' = Inl (NotStarted (a_name a)) \<and>
            (\<forall>call2 w2. start call2 ds a' w2 = start call2 ds a w2))"
proof -
  have nr: "\<not> a_running a" using assms(1) by (simp add: isRunning_def)
  have fwd: "\<exists>a'. start call ds a w = Some (a', w', Some e)"
    if "run_load call ds ord (bs_nodes st) w = (h', w', Some e)" for h' w' e
    using that nr assms(2,3) by (simp add: start_def)
  have bwd: "(\<exists>h'. run_load call ds ord (bs_nodes st) w = (h', w', Some e)) \<and>
            \<not> isRunning a' \<and> a_runtimeTree a' = None \<and>
            get_context a' = Inl (NotStarted (a_name a)) \<and>
            (\<forall>call2 w2. start call2 ds a' w2 = start call2 ds a w2)"
    if s: "start call ds a w = Some (a', w', Some e)" for a' w' e
  proof -
    from s nr assms(2,3) obtain h' where
      rl: "run_load call ds ord (bs_nodes st) w = (h', w', Some e)"
      and a': "a' = a\<lparr>a_runtimeTree := None, a_running := False\<rparr>"
      by (auto simp: start_def split: prod.splits option.splits)
    have "start call2 ds a' w2 = start call2 ds a w2" for call2 w2
      using nr unfolding a' by (simp add: start_def)
    with rl show ?thesis
      unfolding a' by (auto simp: isRunning_def get_context_def)
  qed
  from fwd bwd show ?thesis by blast
qed

text \<open>
  The example: in a world that is not ready the application's load callback raises after
  the logger has been loaded; \<^verbatim>\<open>start()\<close> rejects with what was raised and the
  instance is not started. The attempt repeated in a ready world succeeds.
\<close>

theorem failed_start_resets_witness:
  "\<not> isRunning demo_app \<and>
   (\<exists>root st ord.
      buildTree demo_defs (a_name demo_app) (a_def demo_app) RootKey empty_build
        = Some (root, st) \<and>
      lifecycleOrder (bs_nodes st) root = Some ord \<and>
      (\<exists>h'. run_load demo_call demo_defs ord (bs_nodes st) []
               = (h', [''Logger initialized''], Some (Thrown (VStr ''not ready''))))) \<and>
   (\<exists>a'. start demo_call demo_defs demo_app []
            = Some (a', [''Logger initialized''], Some (Thrown (VStr ''not ready''))) \<and>
         \<not> isRunning a' \<and> a_runtimeTree a' = None \<and>
         get_context a' = Inl (NotStarted ''app'') \<and>
         (\<exists>a''. start demo_call demo_defs a' [''ready'']
                  = Some (a'', [''ready'', ''Logger initialized'', ''App starting''], None)))"
proof -
  have nr: "\<not> isRunning demo_app" by (simp add: isRunning_def demo_app_def)
  have b: "buildTree demo_defs (a_name demo_app) (a_def demo_app) RootKey empty_build
        = Some (Suc 0, snd (the (buildTree demo_defs (a_name demo_app) (a_def demo_app)
                                   RootKey empty_build)))"
    by (simp add: runtime_eval demo_eval cong: eval_cong)
  define st where
    "st = snd (the (buildTree demo_defs (a_name demo_app) (a_def demo_app) RootKey empty_build))"
  have b': "buildTree demo_defs (a_name demo_app) (a_def demo_app) RootKey empty_build
        = Some (Suc 0, st)"
    using b by (simp add: st_def)
  have l: "lifecycleOrder (bs_nodes st) (Suc 0) = Some [0, Suc 0]"
    unfolding st_def by (simp add: runtime_eval demo_eval cong: eval_cong)
  note inst = failed_start_resets[OF nr b' l, where call = demo_call and w = "[]"]
  from demo_start_not_ready
  have s: "start demo_call demo_defs demo_app []
     = Some (demo_app, [''Logger initialized''], Some (Thrown (VStr ''not ready'')))" .
  from inst s have
    rl: "\<exists>h'. run_load demo_call demo_defs [0, Suc 0] (bs_nodes st) []
               = (h', [''Logger initialized''], Some (Thrown (VStr ''not ready'')))"
    and r: "\<not> isRunning demo_app \<and> a_runtimeTree demo_app = None \<and>
         get_context demo_app = Inl (NotStarted (a_name demo_app)) \<and>
         (\<forall>call2 w2. start call2 demo_defs demo_app w2 = start call2 demo_defs demo_app w2)"
    by blast+
  have n: "a_name demo_app = ''app''" by (simp add: demo_app_def)
  from demo_start_ready obtain a'' where
    "start demo_call demo_defs demo_app [''ready'']
          = Some (a'', [''ready'', ''Logger initialized'', ''App starting''], None)"
    by blast
  with nr b' l rl s r n show ?thesis by auto
qed

text \<open>
  Claim C10. \<^verbatim>\<open>use\<close> records the definition of the child in an edge of the parent's
  definition, not the child instance, and \<^verbatim>\<open>start()\<close> writes the fields of its
  receiver only. So for a parent \<open>P\<close> obtained by composing a child instance \<open>C\<close>,
  after \<open>P.start()\<close> every other instance is what it was; a child that was not running
  is still not running and its context still raises, while the parent runs if the start
  succeeded.
\<close>

theorem start_writes_receiver_only:
  assumes "use C options P0 sys0 = Inr (P, sys)"
    and "P \<noteq> C"
    and "obj_start call P sys = Some (sys', r)"
  shows "(\<exists>u \<in> set (md_uses (sys_defs sys (a_def (sys_objects sys P)))).
            ue_def u = a_def (sys_objects sys0 C)) \<and>
         sys_objects sys' C = sys_objects sys0 C \<and>
         (\<forall>j. j \<noteq> P \<longrightarrow> sys_objects sys' j = sys_objects sys j) \<and>
         (\<not> isRunning (sys_objects sys0 C) \<longrightarrow>
            \<not> isRunning (sys_objects sys' C) \<and>
            get_context (sys_objects sys' C) = Inl (NotStarted (a_name (sys_objects sys0 C)))) \<and>
         (r = None \<longrightarrow> isRunning (sys_objects sys' P))"
proof -
  have edge: "\<exists>u \<in> set (md_uses (sys_defs sys (a_def (sys_objects sys P)))).
            ue_def u = a_def (sys_objects sys0 C)"
    using assms(1)
    by (auto simp: use_def Let_def alloc_def_def construct_def copyDef_def
        split: if_splits sum.splits prod.splits)
  have keepC: "sys_objects sys C = sys_objects sys0 C"
    using assms(1,2)
    by (auto simp: use_def Let_def alloc_def_def construct_def
        split: if_splits sum.splits prod.splits)
  have frame: "\<forall>j. j \<noteq> P \<longrightarrow> sys_objects sys' j = sys_objects sys j"
    using assms(3) by (auto simp: obj_start_def)
  have run: "r = None \<longrightarrow> isRunning (sys_objects sys' P)"
  proof
    assume r: "r = None"
    from assms(3) obtain me' w' where
      s: "start call (sys_defs sys) (sys_objects sys P) (sys_world sys) = Some (me', w', r)"
      and o: "sys_objects sys' P = me'"
      by (auto simp: obj_start_def)
    show "isRunning (sys_objects sys' P)"
    proof (cases "a_running (sys_objects sys P)")
      case True
      with s o show ?thesis by (simp add: start_def isRunning_def)
    next
      case False
      from start_success_context[OF s[unfolded r] False] o
      show ?thesis by (auto simp: isRunning_def)
    qed
  qed
  from frame assms(2) keepC have same: "sys_objects sys' C = sys_objects sys0 C" by simp
  have "\<not> isRunning (sys_objects sys0 C) \<longrightarrow>
            \<not> isRunning (sys_objects sys' C) \<and>
            get_context (sys_objects sys' C) = Inl (NotStarted (a_name (sys_objects sys0 C)))"
    unfolding same by (simp add: isRunning_def get_context_throws)
  with edge same frame run show ?thesis by blast
qed

text \<open>
  The example: the bare module composes the logger instance, which gives a new instance;
  that instance is started and runs; the logger instance is not running and its context
  raises.
\<close>

theorem start_writes_receiver_only_witness:
  "\<exists>sys sys'. use 0 None 2 demo_sys = Inr (3, sys) \<and> (3::nat) \<noteq> 0 \<and>
      obj_start demo_call 3 sys = Some (sys', None) \<and>
      \<not> isRunning (sys_objects demo_sys 0) \<and>
      isRunning (sys_objects sys' 3) \<and>
      \<not> isRunning (sys_objects sys' 0) \<and>
      get_context (sys_objects sys' 0) = Inl (NotStarted ''logger'')"
proof -
  define sys where "sys = snd (projr (use 0 None 2 demo_sys))"
  have u: "use 0 None 2 demo_sys = Inr (3, sys)"
    unfolding sys_def
    by (simp add: use_def useScopeId_def alloc_def_def construct_def demo_sys_def demo_eval
        copyDef_def emptyDef_def Let_def)
  have "\<exists>sys'. obj_start demo_call 3 sys = Some (sys', None)"
    unfolding sys_def
    by (simp add: use_def useScopeId_def alloc_def_def construct_def demo_sys_def demo_eval
        copyDef_def emptyDef_def obj_start_def runtime_eval cong: eval_cong)
  then obtain sys' where s: "obj_start demo_call 3 sys = Some (sys', None)" by blast
  have nr: "\<not> isRunning (sys_objects demo_sys 0)"
    and n: "a_name (sys_objects demo_sys 0) = ''logger''"
    by (simp_all add: demo_sys_def isRunning_def)
  have ne: "(3::nat) \<noteq> 0" by simp
  from start_writes_receiver_only[OF u ne s] nr n u s show ?thesis by auto
qed

text \<open>
  Claim C4. The claim says that a function given to \<^verbatim>\<open>state(key, value)\<close> is stored
  as it is, as the documentation of \<^verbatim>\<open>state\<close> says too. In the code only the object
  form forces a static entry: \<^verbatim>\<open>state("handler", f)\<close> makes an entry with
  \<^verbatim>\<open>isFactory\<close> true, and \<^verbatim>\<open>start()\<close> calls \<open>f\<close> with the store object; with an
  \<open>f\<close> that returns 42, \<^verbatim>\<open>context.store.handler\<close> is 42 and not \<open>f\<close>.
\<close>

theorem state_function_value_is_invoked:
  "\<exists>d. state_def [VStr ''handler'', VFun 7] (emptyDef :: unit ModuleDefinition) = Inr d \<and>
       map pe_kind (md_providers d) = [Store] \<and>
       map pe_isFactory (md_providers d) = [True] \<and>
       (\<exists>a' c. start answer_call (\<lambda>_. d) solo () = Some (a', (), None) \<and>
               get_context a' = Inr (Some c) \<and>
               ctx_lookup Store ''handler'' c = Some (VNum 42) \<and>
               ctx_lookup Store ''handler'' c \<noteq> Some (VFun 7))"
  by (simp add: builder_eval runtime_eval solo_def answer_call_def ctx_lookup_def
      cong: eval_cong)

text \<open>
  Claim C6. Declaring a key a second time in append mode raises at the builder call, and
  a redeclaration whose options are recognised and carry \<^verbatim>\<open>mode: "override"\<close> is
  accepted. But \<^verbatim>\<open>#isOpts\<close> recognises an options object by a string
  \<^verbatim>\<open>scope\<close> or \<^verbatim>\<open>kind\<close> only: the call
  \<^verbatim>\<open>decorate("port", 2, { mode: "override" })\<close> is parsed as if no options were
  given, its mode is \<^verbatim>\<open>append\<close>, and it raises the error whose message asks for
  \<^verbatim>\<open>{ mode: 'override' }\<close>.
\<close>

theorem override_without_scope_is_rejected:
  "\<exists>d1. decorate_def [VStr ''port'', VNum 1, VObj [(''scope'', VStr ''global'')]]
           (emptyDef :: unit ModuleDefinition) = Inr d1 \<and>
        decorate_def [VStr ''port'', VNum 2] d1 = Inl (AlreadyDefined Decorator ''port'') \<and>
        \<not> isOpts (VObj [(''mode'', VStr ''override'')]) \<and>
        decorate_def [VStr ''port'', VNum 2, VObj [(''mode'', VStr ''override'')]] d1
          = Inl (AlreadyDefined Decorator ''port'') \<and>
        (\<exists>d2. decorate_def [VStr ''port'', VNum 2,
                   VObj [(''scope'', VStr ''local''), (''mode'', VStr ''override'')]] d1 = Inr d2)"
  by (simp add: builder_eval)

text \<open>
  Claim C9. Every entry of an object-form declaration is static and reaches the context
  as the raw value, as the claim says. But factories are not invoked for the two-argument
  form of \<^verbatim>\<open>decorate\<close> and \<^verbatim>\<open>provide\<close> only: the two-argument form of
  \<^verbatim>\<open>state\<close> makes a factory entry as well. Here \<^verbatim>\<open>state({ handler: f })\<close> keeps
  \<open>f\<close>, and \<^verbatim>\<open>state("handler", f, { scope: "scoped" })\<close> stores the 42 that \<open>f\<close>
  returns.
\<close>

theorem state_pair_form_invokes_factory:
  "(\<exists>d. state_def [VObj [(''handler'', VFun 7)]] (emptyDef :: unit ModuleDefinition) = Inr d \<and>
        map pe_isFactory (md_providers d) = [False] \<and>
        (\<exists>a' c. start answer_call (\<lambda>_. d) solo () = Some (a', (), None) \<and>
                get_context a' = Inr (Some c) \<and>
                ctx_lookup Store ''handler'' c = Some (VFun 7))) \<and>
   (\<exists>d. state_def [VStr ''handler'', VFun 7, VObj [(''scope'', VStr ''scoped'')]]
           (emptyDef :: unit ModuleDefinition) = Inr d \<and>
        map pe_isFactory (md_providers d) = [True] \<and>
        (\<exists>a' c. start answer_call (\<lambda>_. d) solo () = Some (a', (), None) \<and>
                get_context a' = Inr (Some c) \<and>
                ctx_lookup Store ''handler'' c = Some (VNum 42)))"
  by (simp add: builder_eval runtime_eval solo_def answer_call_def ctx_lookup_def
      cong: eval_cong)

text \<open>
  Claim C3. Let \<open>A\<close> use \<open>B\<close> only, \<open>B\<close> use \<open>C\<close> only and \<open>C\<close> use nothing.
  \<^verbatim>\<open>start()\<close> of an instance of \<open>A\<close> builds three nodes and computes the load order
  \<open>[C, B, A]\<close>: the loop of \<^verbatim>\<open>start()\<close> runs over exactly this list. After a
  successful start, \<^verbatim>\<open>stop()\<close> computes the same order on the stored tree and runs
  the unload callbacks over its reverse, \<open>[A, B, C]\<close>.
\<close>

theorem chain_load_and_unload_order:
  assumes "md_uses (ds a) = [ea]" and "ue_def ea = b"
    and "md_uses (ds b) = [eb]" and "ue_def eb = c"
    and "md_uses (ds c) = []"
    and "a_def A = a" and "\<not> isRunning A"
  shows "\<exists>st. buildTree ds (a_name A) (a_def A) RootKey empty_build = Some (2, st) \<and>
     lifecycleOrder (bs_nodes st) 2 = Some [0, 1, 2] \<and>
     map (\<lambda>i. rt_def (bs_nodes st i)) [0, 1, 2] = [c, b, a] \<and>
     (\<forall>w. \<exists>h' w' r. run_load call ds [0, 1, 2] (bs_nodes st) w = (h', w', r) \<and>
        start call ds A w =
          Some (if r = None
                then A\<lparr>a_runtimeTree := Some \<lparr>t_root = 2, t_nodes = h'\<rparr>, a_running := True\<rparr>
                else A\<lparr>a_runtimeTree := None, a_running := False\<rparr>, w', r) \<and>
        (r = None \<longrightarrow>
           map_option rev (lifecycleOrder h' 2) = Some [2, 1, 0] \<and>
           map (\<lambda>i. rt_def (h' i)) [2, 1, 0] = [a, b, c] \<and>
           (\<forall>w2. \<exists>w3 r3. run_unload ds [2, 1, 0] h' w2 = (w3, r3) \<and>
              stop ds (A\<lparr>a_runtimeTree := Some \<lparr>t_root = 2, t_nodes = h'\<rparr>, a_running := True\<rparr>) w2
                = Some (A\<lparr>a_runtimeTree := None, a_running := False\<rparr>, w3, r3))))"
proof -
  from chain3_build[OF assms(1-5), of "a_name A"] assms(6) obtain st where
    b: "buildTree ds (a_name A) (a_def A) RootKey empty_build = Some (2, st)"
    and n0: "bs_nodes st 0 = new_node (ue_name eb) c []"
    and n1: "bs_nodes st 1 = new_node (ue_name ea) b [0]"
    and n2: "bs_nodes st 2 = new_node (a_name A) a [1]"
    by auto
  note n1 = n1[unfolded One_nat_def]
  have l: "lifecycleOrder (bs_nodes st) 2 = Some [0, 1, 2]"
    by (rule chain3_order) (simp_all add: n0 n1 n2 new_node_def)
  have dm: "map (\<lambda>i. rt_def (bs_nodes st i)) [0, 1, 2] = [c, b, a]"
    by (simp add: n0 n1 n2 new_node_def)
  have nr: "\<not> a_running A" using assms(7) by (simp add: isRunning_def)
  have run: "\<exists>h' w' r. run_load call ds [0, 1, 2] (bs_nodes st) w = (h', w', r) \<and>
        start call ds A w =
          Some (if r = None
                then A\<lparr>a_runtimeTree := Some \<lparr>t_root = 2, t_nodes = h'\<rparr>, a_running := True\<rparr>
                else A\<lparr>a_runtimeTree := None, a_running := False\<rparr>, w', r) \<and>
        (r = None \<longrightarrow>
           map_option rev (lifecycleOrder h' 2) = Some [2, 1, 0] \<and>
           map (\<lambda>i. rt_def (h' i)) [2, 1, 0] = [a, b, c] \<and>
           (\<forall>w2. \<exists>w3 r3. run_unload ds [2, 1, 0] h' w2 = (w3, r3) \<and>
              stop ds (A\<lparr>a_runtimeTree := Some \<lparr>t_root = 2, t_nodes = h'\<rparr>, a_running := True\<rparr>) w2
                = Some (A\<lparr>a_runtimeTree := None, a_running := False\<rparr>, w3, r3)))" for w
  proof -
    obtain h' w' r where rl: "run_load call ds [0, 1, 2] (bs_nodes st) w = (h', w', r)"
      by (cases "run_load call ds [0, 1, 2] (bs_nodes st) w") auto
    have s: "start call ds A w =
          Some (if r = None
                then A\<lparr>a_runtimeTree := Some \<lparr>t_root = 2, t_nodes = h'\<rparr>, a_running := True\<rparr>
                else A\<lparr>a_runtimeTree := None, a_running := False\<rparr>, w', r)"
      using nr b l rl by (auto simp: start_def)
    from run_load_shape[OF rl] have sh: "same_shape (bs_nodes st j) (h' j)" for j .
    have ch: "rt_children (h' 0) = []" "rt_children (h' 1) = [0]" "rt_children (h' 2) = [1]"
      and df: "rt_def (h' 0) = c" "rt_def (h' 1) = b" "rt_def (h' 2) = a"
      using sh[of 0] sh[of 1] sh[of 2] by (simp_all add: same_shape_def n0 n1 n2 new_node_def)
    have l': "lifecycleOrder h' 2 = Some [0, 1, 2]" by (rule chain3_order[OF ch])
    have st: "\<exists>w3 r3. run_unload ds [2, 1, 0] h' w2 = (w3, r3) \<and>
              stop ds (A\<lparr>a_runtimeTree := Some \<lparr>t_root = 2, t_nodes = h'\<rparr>, a_running := True\<rparr>) w2
                = Some (A\<lparr>a_runtimeTree := None, a_running := False\<rparr>, w3, r3)" for w2
    proof -
      obtain w3 r3 where ru: "run_unload ds [2, 1, 0] h' w2 = (w3, r3)"
        by (cases "run_unload ds [2, 1, 0] h' w2") auto
      show ?thesis using ru l' by (simp add: stop_def)
    qed
    from rl s l' df st show ?thesis by auto
  qed
  show ?thesis by (intro exI[of _ st] conjI allI b l dm run)
qed

text \<open>
  The tower from \<open>mid\<close> down: the load order is base, low, mid, as the lines logged by
  the load callbacks show, and the unload callbacks log in the reverse order.
\<close>

theorem chain_load_and_unload_order_witness:
  "md_uses (tower_defs 2) = [edge_to ''low'' 1] \<and> ue_def (edge_to ''low'' 1) = 1 \<and>
   md_uses (tower_defs 1) = [edge_to ''base'' 0] \<and> ue_def (edge_to ''base'' 0) = 0 \<and>
   md_uses (tower_defs 0) = [] \<and> a_def (instance_of ''mid'' 2) = 2 \<and>
   \<not> isRunning (instance_of ''mid'' 2) \<and>
   (\<exists>st. buildTree tower_defs ''mid'' 2 RootKey empty_build = Some (2, st) \<and>
      lifecycleOrder (bs_nodes st) 2 = Some [0, 1, 2] \<and>
      map (\<lambda>i. rt_def (bs_nodes st i)) [0, 1, 2] = [0, 1, 2]) \<and>
   (\<exists>A'. start demo_call tower_defs (instance_of ''mid'' 2) []
            = Some (A', [''base'', ''low'', ''mid''], None) \<and>
      (\<exists>A''. stop tower_defs A' [] = Some (A'', [''mid down'', ''low down'', ''base down''], None)))"
proof -
  have h: "md_uses (tower_defs 2) = [edge_to ''low'' 1]" "ue_def (edge_to ''low'' 1) = 1"
    "md_uses (tower_defs 1) = [edge_to ''base'' 0]" "ue_def (edge_to ''base'' 0) = 0"
    "md_uses (tower_defs 0) = []" "a_def (instance_of ''mid'' 2) = 2"
    "\<not> isRunning (instance_of ''mid'' 2)"
    by (simp_all add: tower_eval isRunning_def)
  from chain_load_and_unload_order[OF h, of demo_call]
  have 1: "\<exists>st. buildTree tower_defs ''mid'' 2 RootKey empty_build = Some (2, st) \<and>
      lifecycleOrder (bs_nodes st) 2 = Some [0, 1, 2] \<and>
      map (\<lambda>i. rt_def (bs_nodes st i)) [0, 1, 2] = [0, 1, 2]"
    by (auto simp: instance_of_def)
  have 2: "\<exists>A'. start demo_call tower_defs (instance_of ''mid'' 2) []
            = Some (A', [''base'', ''low'', ''mid''], None) \<and>
      (\<exists>A''. stop tower_defs A' [] = Some (A'', [''mid down'', ''low down'', ''base down''], None))"
    by (simp add: runtime_eval tower_eval demo_call_def cong: eval_cong)
  from h 1 2 show ?thesis by blast
qed





text \<open>
  Claim C2. Let the definitions that the root reaches form an acyclic graph. The tree
  builder returns, the load order is the order in which the nodes were created, each
  node once, and whenever edge \<open>j1\<close> of node \<open>p1\<close> and edge \<open>j2\<close> of node \<open>p2\<close>
  lead to the same definition \<open>S\<close> with the global scope identity, the two children
  are one node \<open>s\<close>, older than both parents, so loaded before them. If every edge
  to \<open>S\<close> has the global scope identity and \<open>S\<close> is not the root definition,
  \<open>s\<close> is the only node of \<open>S\<close>. \<^verbatim>\<open>start()\<close> runs the loop over this order;
  when it succeeds, the world is what the load callbacks make of it, run node by node
  over the order, so those of \<open>s\<close> run once. Every value that \<open>s\<close> exports is the
  value that the context of either parent holds under the same kind and key, once the
  parent is initialised, unless the parent declares the key itself (by overriding it):
  a reference held by the store of \<open>s\<close> is the same reference in both contexts.
\<close>

theorem shared_global_module_is_built_once:
  assumes "ranked ds rk D" and "a_def a \<in> D" and "\<not> isRunning a"
  shows "\<exists>root st.
     buildTree ds (a_name a) (a_def a) RootKey empty_build = Some (root, st) \<and>
     lifecycleOrder (bs_nodes st) root = Some [0..<bs_next st] \<and>
     (\<forall>p1 j1 p2 j2 S.
        p1 < bs_next st \<and> global_use ds (bs_nodes st) p1 j1 S \<and>
        p2 < bs_next st \<and> global_use ds (bs_nodes st) p2 j2 S \<longrightarrow>
        (\<exists>s. child_at (bs_nodes st) p1 j1 = Some s \<and> child_at (bs_nodes st) p2 j2 = Some s \<and>
             s < p1 \<and> s < p2 \<and> rt_def (bs_nodes st s) = S \<and>
             (S \<noteq> a_def a \<and>
              (\<forall>d'. \<forall>u \<in> set (md_uses (ds d')). ue_def u = S \<longrightarrow> edge_key u = EdgeKey GLOBAL_SCOPE)
              \<longrightarrow> (\<forall>i < bs_next st. rt_def (bs_nodes st i) = S \<longrightarrow> i = s)) \<and>
             (\<forall>w. \<exists>h' w' r.
                run_load call ds [0..<bs_next st] (bs_nodes st) w = (h', w', r) \<and>
                start call ds a w =
                  Some (if r = None
                        then a\<lparr>a_runtimeTree := Some \<lparr>t_root = root, t_nodes = h'\<rparr>, a_running := True\<rparr>
                        else a\<lparr>a_runtimeTree := None, a_running := False\<rparr>, w', r) \<and>
                (r = None \<longrightarrow> run_loaded ds [0..<bs_next st] h' w = (w', None)) \<and>
                (\<forall>kd k v. look (rt_exportedProviders (h' s)) kd k = Some v \<longrightarrow>
                   (\<forall>p \<in> {p1, p2}. rt_initialized (h' p) \<and> \<not> declares ds (rt_def (h' p)) kd k
                      \<longrightarrow> sees h' p kd k = Some v)))))"
proof -
  from build_ranked_root[OF assms(1,2), of "a_name a"] obtain root st where
    b: "buildTree ds (a_name a) (a_def a) RootKey empty_build = Some (root, st)"
    and wf: "wf_build ds st" and co: "cache_ok ds (a_def a) st" and lt: "root < bs_next st"
    and l: "\<And>H. (\<forall>i < bs_next st. rt_children (H i) = rt_children (bs_nodes st i)) \<Longrightarrow>
                lifecycleOrder H root = Some [0..<bs_next st]"
    by blast
  let ?n = "bs_next st" and ?h = "bs_nodes st"
  have l0: "lifecycleOrder ?h root = Some [0..<?n]" by (rule l) simp
  have nr: "\<not> a_running a" using assms(3) by (simp add: isRunning_def)
  have main: "\<exists>s. child_at ?h p1 j1 = Some s \<and> child_at ?h p2 j2 = Some s \<and>
             s < p1 \<and> s < p2 \<and> rt_def (?h s) = S \<and>
             (S \<noteq> a_def a \<and>
              (\<forall>d'. \<forall>u \<in> set (md_uses (ds d')). ue_def u = S \<longrightarrow> edge_key u = EdgeKey GLOBAL_SCOPE)
              \<longrightarrow> (\<forall>i < ?n. rt_def (?h i) = S \<longrightarrow> i = s)) \<and>
             (\<forall>w. \<exists>h' w' r.
                run_load call ds [0..<?n] ?h w = (h', w', r) \<and>
                start call ds a w =
                  Some (if r = None
                        then a\<lparr>a_runtimeTree := Some \<lparr>t_root = root, t_nodes = h'\<rparr>, a_running := True\<rparr>
                        else a\<lparr>a_runtimeTree := None, a_running := False\<rparr>, w', r) \<and>
                (r = None \<longrightarrow> run_loaded ds [0..<?n] h' w = (w', None)) \<and>
                (\<forall>kd k v. look (rt_exportedProviders (h' s)) kd k = Some v \<longrightarrow>
                   (\<forall>p \<in> {p1, p2}. rt_initialized (h' p) \<and> \<not> declares ds (rt_def (h' p)) kd k
                      \<longrightarrow> sees h' p kd k = Some v)))"
    if p1: "p1 < ?n" and g1: "global_use ds ?h p1 j1 S"
      and p2: "p2 < ?n" and g2: "global_use ds ?h p2 j2 S" for p1 j1 p2 j2 S
  proof -
    from g1 g2 have j1: "j1 < length (md_uses (ds (rt_def (?h p1))))"
      and j2: "j2 < length (md_uses (ds (rt_def (?h p2))))"
      and e1: "ue_def (md_uses (ds (rt_def (?h p1))) ! j1) = S"
        "edge_key (md_uses (ds (rt_def (?h p1))) ! j1) = EdgeKey GLOBAL_SCOPE"
      and e2: "ue_def (md_uses (ds (rt_def (?h p2))) ! j2) = S"
        "edge_key (md_uses (ds (rt_def (?h p2))) ! j2) = EdgeKey GLOBAL_SCOPE"
      by (simp_all add: global_use_def)
    define s where "s = rt_children (?h p1) ! j1"
    from wf_build_child[OF wf p1 j1] e1
    have c1: "j1 < length (rt_children (?h p1))"
      and cs: "cache_get (bs_cache st) S (EdgeKey GLOBAL_SCOPE) = Some s"
      by (simp_all add: s_def)
    from wf_build_child[OF wf p2 j2] e2 cs
    have c2: "j2 < length (rt_children (?h p2))" and s2: "rt_children (?h p2) ! j2 = s"
      by simp_all
    have ca: "child_at ?h p1 j1 = Some s" "child_at ?h p2 j2 = Some s"
      using c1 c2 s2 by (simp_all add: child_at_def s_def)
    have m1: "s \<in> set (rt_children (?h p1))" using c1 by (simp add: s_def)
    have m2: "s \<in> set (rt_children (?h p2))" using c2 s2 nth_mem by fastforce
    have lt1: "s < p1" by (rule wf_build_older[OF wf p1 m1])
    have lt2: "s < p2" by (rule wf_build_older[OF wf p2 m2])
    from wf_build_bound[OF wf cs] have ds: "rt_def (?h s) = S" by simp
    have uniq: "S \<noteq> a_def a \<and>
              (\<forall>d'. \<forall>u \<in> set (md_uses (ds d')). ue_def u = S \<longrightarrow> edge_key u = EdgeKey GLOBAL_SCOPE)
              \<longrightarrow> (\<forall>i < ?n. rt_def (?h i) = S \<longrightarrow> i = s)"
    proof (intro impI allI)
      fix i
      assume h: "S \<noteq> a_def a \<and>
              (\<forall>d'. \<forall>u \<in> set (md_uses (ds d')). ue_def u = S \<longrightarrow> edge_key u = EdgeKey GLOBAL_SCOPE)"
        and i: "i < ?n" and di: "rt_def (?h i) = S"
      from wf_build_cached[OF wf i] di obtain k where
        k: "cache_get (bs_cache st) S k = Some i" by auto
      with co have "keys_ok ds (a_def a) S k" by (auto simp: cache_ok_def)
      with h have "k = EdgeKey GLOBAL_SCOPE" by (auto simp: keys_ok_def)
      with k cs show "i = s" by simp
    qed
    have run: "\<exists>h' w' r.
                run_load call ds [0..<?n] ?h w = (h', w', r) \<and>
                start call ds a w =
                  Some (if r = None
                        then a\<lparr>a_runtimeTree := Some \<lparr>t_root = root, t_nodes = h'\<rparr>, a_running := True\<rparr>
                        else a\<lparr>a_runtimeTree := None, a_running := False\<rparr>, w', r) \<and>
                (r = None \<longrightarrow> run_loaded ds [0..<?n] h' w = (w', None)) \<and>
                (\<forall>kd k v. look (rt_exportedProviders (h' s)) kd k = Some v \<longrightarrow>
                   (\<forall>p \<in> {p1, p2}. rt_initialized (h' p) \<and> \<not> declares ds (rt_def (h' p)) kd k
                      \<longrightarrow> sees h' p kd k = Some v))" for w
    proof -
      obtain h' w' r where rl: "run_load call ds [0..<?n] ?h w = (h', w', r)"
        by (cases "run_load call ds [0..<?n] ?h w") auto
      have st: "start call ds a w =
                  Some (if r = None
                        then a\<lparr>a_runtimeTree := Some \<lparr>t_root = root, t_nodes = h'\<rparr>, a_running := True\<rparr>
                        else a\<lparr>a_runtimeTree := None, a_running := False\<rparr>, w', r)"
        using nr b l0 rl by (auto simp: start_def)
      have wo: "r = None \<longrightarrow> run_loaded ds [0..<?n] h' w = (w', None)"
        using run_load_world[of call ds "[0..<?n]" ?h w h' w'] rl by simp
      from run_ranked[OF wf rl] obtain m where m: "m \<le> ?n"
        and good: "\<forall>i<m. settled call ds ?h h' i \<and> maps_ok (h' i) \<and> nested (h' i)"
        and ini: "\<forall>i<?n. rt_initialized (h' i) \<longrightarrow> i < m" by blast
      have sh: "same_shape (?h i) (h' i)" for i by (rule run_load_shape[OF rl])
      have one: "sees h' p kd k = Some v"
        if e: "look (rt_exportedProviders (h' s)) kd k = Some v"
          and p: "p < ?n" and j: "j < length (rt_children (?h p))"
            "j < length (md_uses (ds (rt_def (?h p))))" "rt_children (?h p) ! j = s"
          and i: "rt_initialized (h' p)" and nd: "\<not> declares ds (rt_def (h' p)) kd k"
        for p j kd k v
      proof -
        from ini p i have pm: "p < m" by simp
        with good have se: "init_result call ds h' p (?h p) = Inr (h' p)"
          by (simp add: settled_def)
        have ch: "\<forall>c \<in> set (rt_children (?h p)). c \<noteq> p \<and> maps_ok (h' c)"
        proof
          fix c assume "c \<in> set (rt_children (?h p))"
          from wf_build_older[OF wf p this] have "c < p" .
          with pm good show "c \<noteq> p \<and> maps_ok (h' c)" by simp
        qed
        from sh[of p] nd have nd': "\<not> declares ds (rt_def (?h p)) kd k"
          by (simp add: same_shape_def)
        from e j(3) have e': "look (rt_exportedProviders (h' (rt_children (?h p) ! j))) kd k = Some v"
          by simp
        from settled_imports[OF se j(1,2) ch e' nd'] show ?thesis by (auto simp: sees_def)
      qed
      have pv: "\<forall>kd k v. look (rt_exportedProviders (h' s)) kd k = Some v \<longrightarrow>
                   (\<forall>p \<in> {p1, p2}. rt_initialized (h' p) \<and> \<not> declares ds (rt_def (h' p)) kd k
                      \<longrightarrow> sees h' p kd k = Some v)"
      proof (intro allI impI ballI)
        fix kd k v p
        assume e: "look (rt_exportedProviders (h' s)) kd k = Some v"
          and p: "p \<in> {p1, p2}"
          and i: "rt_initialized (h' p) \<and> \<not> declares ds (rt_def (h' p)) kd k"
        from p consider "p = p1" | "p = p2" by auto
        then show "sees h' p kd k = Some v"
        proof cases
          case 1
          from one[OF e p1 c1 j1 s_def[symmetric]] i show ?thesis unfolding 1 by simp
        next
          case 2
          from one[OF e p2 c2 j2 s2] i show ?thesis unfolding 2 by simp
        qed
      qed
      show ?thesis by (intro exI[of _ h'] exI[of _ w'] exI[of _ r] conjI rl st wo pv)
    qed
    from run have runall: "\<forall>w. \<exists>h' w' r.
                run_load call ds [0..<?n] ?h w = (h', w', r) \<and>
                start call ds a w =
                  Some (if r = None
                        then a\<lparr>a_runtimeTree := Some \<lparr>t_root = root, t_nodes = h'\<rparr>, a_running := True\<rparr>
                        else a\<lparr>a_runtimeTree := None, a_running := False\<rparr>, w', r) \<and>
                (r = None \<longrightarrow> run_loaded ds [0..<?n] h' w = (w', None)) \<and>
                (\<forall>kd k v. look (rt_exportedProviders (h' s)) kd k = Some v \<longrightarrow>
                   (\<forall>p \<in> {p1, p2}. rt_initialized (h' p) \<and> \<not> declares ds (rt_def (h' p)) kd k
                      \<longrightarrow> sees h' p kd k = Some v))" ..
    show ?thesis
      by (intro exI[of _ s] conjI ca lt1 lt2 ds uniq runall)
  qed
  have all: "\<forall>p1 j1 p2 j2 S.
        p1 < ?n \<and> global_use ds ?h p1 j1 S \<and>
        p2 < ?n \<and> global_use ds ?h p2 j2 S \<longrightarrow>
        (\<exists>s. child_at ?h p1 j1 = Some s \<and> child_at ?h p2 j2 = Some s \<and>
             s < p1 \<and> s < p2 \<and> rt_def (?h s) = S \<and>
             (S \<noteq> a_def a \<and>
              (\<forall>d'. \<forall>u \<in> set (md_uses (ds d')). ue_def u = S \<longrightarrow> edge_key u = EdgeKey GLOBAL_SCOPE)
              \<longrightarrow> (\<forall>i < ?n. rt_def (?h i) = S \<longrightarrow> i = s)) \<and>
             (\<forall>w. \<exists>h' w' r.
                run_load call ds [0..<?n] ?h w = (h', w', r) \<and>
                start call ds a w =
                  Some (if r = None
                        then a\<lparr>a_runtimeTree := Some \<lparr>t_root = root, t_nodes = h'\<rparr>, a_running := True\<rparr>
                        else a\<lparr>a_runtimeTree := None, a_running := False\<rparr>, w', r) \<and>
                (r = None \<longrightarrow> run_loaded ds [0..<?n] h' w = (w', None)) \<and>
                (\<forall>kd k v. look (rt_exportedProviders (h' s)) kd k = Some v \<longrightarrow>
                   (\<forall>p \<in> {p1, p2}. rt_initialized (h' p) \<and> \<not> declares ds (rt_def (h' p)) kd k
                      \<longrightarrow> sees h' p kd k = Some v))))"
  proof (intro allI impI)
    fix p1 j1 p2 j2 S
    assume "p1 < ?n \<and> global_use ds ?h p1 j1 S \<and> p2 < ?n \<and> global_use ds ?h p2 j2 S"
    then have "p1 < ?n" "global_use ds ?h p1 j1 S" "p2 < ?n" "global_use ds ?h p2 j2 S"
      by simp_all
    then show "\<exists>s. child_at ?h p1 j1 = Some s \<and> child_at ?h p2 j2 = Some s \<and>
             s < p1 \<and> s < p2 \<and> rt_def (?h s) = S \<and>
             (S \<noteq> a_def a \<and>
              (\<forall>d'. \<forall>u \<in> set (md_uses (ds d')). ue_def u = S \<longrightarrow> edge_key u = EdgeKey GLOBAL_SCOPE)
              \<longrightarrow> (\<forall>i < ?n. rt_def (?h i) = S \<longrightarrow> i = s)) \<and>
             (\<forall>w. \<exists>h' w' r.
                run_load call ds [0..<?n] ?h w = (h', w', r) \<and>
                start call ds a w =
                  Some (if r = None
                        then a\<lparr>a_runtimeTree := Some \<lparr>t_root = root, t_nodes = h'\<rparr>, a_running := True\<rparr>
                        else a\<lparr>a_runtimeTree := None, a_running := False\<rparr>, w', r) \<and>
                (r = None \<longrightarrow> run_loaded ds [0..<?n] h' w = (w', None)) \<and>
                (\<forall>kd k v. look (rt_exportedProviders (h' s)) kd k = Some v \<longrightarrow>
                   (\<forall>p \<in> {p1, p2}. rt_initialized (h' p) \<and> \<not> declares ds (rt_def (h' p)) kd k
                      \<longrightarrow> sees h' p kd k = Some v)))"
      by (rule main)
  qed
  show ?thesis by (intro exI[of _ root] exI[of _ st] conjI b l0 all)
qed

text \<open>
  The shared module of the example: one node for \<open>shared\<close>, the child of \<open>left\<close> and
  of \<open>right\<close>; its load callback logs once; both parents hold the reference of its
  store entry.
\<close>

theorem shared_global_module_is_built_once_witness:
  "ranked diamond_defs (\<lambda>d. d) {0, 1, 2, 3} \<and> a_def (instance_of ''app'' 3) \<in> {0, 1, 2, 3} \<and>
   \<not> isRunning (instance_of ''app'' 3) \<and>
   (\<exists>st. buildTree diamond_defs ''app'' 3 RootKey empty_build = Some (3, st) \<and>
      lifecycleOrder (bs_nodes st) 3 = Some [0, 1, 2, 3] \<and>
      global_use diamond_defs (bs_nodes st) 1 0 0 \<and> global_use diamond_defs (bs_nodes st) 2 0 0 \<and>
      child_at (bs_nodes st) 1 0 = Some 0 \<and> child_at (bs_nodes st) 2 0 = Some 0 \<and>
      (\<exists>A' t. start demo_call diamond_defs (instance_of ''app'' 3) []
                = Some (A', [''shared'', ''left'', ''right'', ''app''], None) \<and>
         a_runtimeTree A' = Some t \<and>
         look (rt_exportedProviders (t_nodes t 0)) Store ''counter'' = Some (VRef 7) \<and>
         sees (t_nodes t) 1 Store ''counter'' = Some (VRef 7) \<and>
         sees (t_nodes t) 2 Store ''counter'' = Some (VRef 7)))"
proof -
  let ?a = "instance_of ''app'' 3"
  have h: "ranked diamond_defs (\<lambda>d. d) {0, 1, 2, 3}" "a_def ?a \<in> {0, 1, 2, 3}" "\<not> isRunning ?a"
    by (simp_all add: ranked_def diamond_defs_def tower_eval isRunning_def)
  from shared_global_module_is_built_once[OF h, of demo_call] obtain root st where
    b: "buildTree diamond_defs (a_name ?a) (a_def ?a) RootKey empty_build = Some (root, st)"
    and l: "lifecycleOrder (bs_nodes st) root = Some [0..<bs_next st]"
    and sh: "\<forall>p1 j1 p2 j2 S.
        p1 < bs_next st \<and> global_use diamond_defs (bs_nodes st) p1 j1 S \<and>
        p2 < bs_next st \<and> global_use diamond_defs (bs_nodes st) p2 j2 S \<longrightarrow>
        (\<exists>s. child_at (bs_nodes st) p1 j1 = Some s \<and> child_at (bs_nodes st) p2 j2 = Some s \<and>
             s < p1 \<and> s < p2 \<and> rt_def (bs_nodes st s) = S \<and>
             (S \<noteq> a_def ?a \<and>
              (\<forall>d'. \<forall>u \<in> set (md_uses (diamond_defs d')). ue_def u = S \<longrightarrow> edge_key u = EdgeKey GLOBAL_SCOPE)
              \<longrightarrow> (\<forall>i < bs_next st. rt_def (bs_nodes st i) = S \<longrightarrow> i = s)) \<and>
             (\<forall>w. \<exists>h' w' r.
                run_load demo_call diamond_defs [0..<bs_next st] (bs_nodes st) w = (h', w', r) \<and>
                start demo_call diamond_defs ?a w =
                  Some (if r = None
                        then ?a\<lparr>a_runtimeTree := Some \<lparr>t_root = root, t_nodes = h'\<rparr>, a_running := True\<rparr>
                        else ?a\<lparr>a_runtimeTree := None, a_running := False\<rparr>, w', r) \<and>
                (r = None \<longrightarrow> run_loaded diamond_defs [0..<bs_next st] h' w = (w', None)) \<and>
                (\<forall>kd k v. look (rt_exportedProviders (h' s)) kd k = Some v \<longrightarrow>
                   (\<forall>p \<in> {p1, p2}. rt_initialized (h' p) \<and> \<not> declares diamond_defs (rt_def (h' p)) kd k
                      \<longrightarrow> sees h' p kd k = Some v))))"
    by (elim exE conjE)
  from diamond_build b obtain
    r3: "root = 3" and n: "bs_next st = 4"
    and n0: "bs_nodes st 0 = new_node ''shared'' 0 []"
    and n1: "bs_nodes st 1 = new_node ''left'' 1 [0]"
    and n2: "bs_nodes st 2 = new_node ''right'' 2 [0]"
    by (auto simp: instance_of_def)
  note n1 = n1[unfolded One_nat_def]
  have b3: "buildTree diamond_defs ''app'' 3 RootKey empty_build = Some (3, st)"
    using b r3 by (simp add: instance_of_def)
  have l3: "lifecycleOrder (bs_nodes st) 3 = Some [0, 1, 2, 3]"
    using l r3 n by (simp add: upt_rec eval_nat_numeral)
  have g: "global_use diamond_defs (bs_nodes st) 1 0 0" "global_use diamond_defs (bs_nodes st) 2 0 0"
    by (simp_all add: global_use_def n1 n2 new_node_def diamond_defs_def tower_eval edge_key_def)
  have c: "child_at (bs_nodes st) 1 0 = Some 0" "child_at (bs_nodes st) 2 0 = Some 0"
    by (simp_all add: child_at_def n1 n2 new_node_def)
  have "1 < bs_next st \<and> global_use diamond_defs (bs_nodes st) 1 0 0 \<and>
        2 < bs_next st \<and> global_use diamond_defs (bs_nodes st) 2 0 0"
    using g n by simp
  from sh[rule_format, OF this] obtain s where
    cs: "child_at (bs_nodes st) 1 0 = Some s"
    and run0: "\<forall>w. \<exists>h' w' r.
                run_load demo_call diamond_defs [0..<bs_next st] (bs_nodes st) w = (h', w', r) \<and>
                start demo_call diamond_defs ?a w =
                  Some (if r = None
                        then ?a\<lparr>a_runtimeTree := Some \<lparr>t_root = root, t_nodes = h'\<rparr>, a_running := True\<rparr>
                        else ?a\<lparr>a_runtimeTree := None, a_running := False\<rparr>, w', r) \<and>
                (r = None \<longrightarrow> run_loaded diamond_defs [0..<bs_next st] h' w = (w', None)) \<and>
                (\<forall>kd k v. look (rt_exportedProviders (h' s)) kd k = Some v \<longrightarrow>
                   (\<forall>p \<in> {1, 2}. rt_initialized (h' p) \<and> \<not> declares diamond_defs (rt_def (h' p)) kd k
                      \<longrightarrow> sees h' p kd k = Some v))"
    by (elim exE conjE)
  from cs c have s0: "s = 0" by simp
  from run0[rule_format, of "[]"] obtain h' w' r where
    s: "start demo_call diamond_defs ?a [] =
          Some (if r = None
                then ?a\<lparr>a_runtimeTree := Some \<lparr>t_root = root, t_nodes = h'\<rparr>, a_running := True\<rparr>
                else ?a\<lparr>a_runtimeTree := None, a_running := False\<rparr>, w', r)"
    and pv0: "\<forall>kd k v. look (rt_exportedProviders (h' s)) kd k = Some v \<longrightarrow>
                   (\<forall>p \<in> {1, 2}. rt_initialized (h' p) \<and> \<not> declares diamond_defs (rt_def (h' p)) kd k
                      \<longrightarrow> sees h' p kd k = Some v)"
    by (elim exE conjE)
  have pv: "sees h' p kd k = Some v"
    if "look (rt_exportedProviders (h' 0)) kd k = Some v" "p \<in> {1, 2}"
       "rt_initialized (h' p) \<and> \<not> declares diamond_defs (rt_def (h' p)) kd k" for kd k v p
    using pv0[rule_format, of kd k v p] that s0 by simp
  from diamond_start obtain A' t where
    s': "start demo_call diamond_defs ?a [] = Some (A', [''shared'', ''left'', ''right'', ''app''], None)"
    and t: "a_runtimeTree A' = Some t"
    and e: "look (rt_exportedProviders (t_nodes t 0)) Store ''counter'' = Some (VRef 7)"
    and i: "rt_initialized (t_nodes t 1)" "rt_initialized (t_nodes t 2)"
    and d: "rt_def (t_nodes t 1) = 1" "rt_def (t_nodes t 2) = 2"
    by blast
  from s s' t have th: "t_nodes t = h'" by (auto split: if_splits)
  have nd: "\<not> declares diamond_defs 1 Store ''counter''" "\<not> declares diamond_defs 2 Store ''counter''"
    by (simp_all add: declares_def diamond_defs_def tower_eval)
  from pv[of Store "''counter''" "VRef 7" 1] e i d nd th
  have s1: "sees (t_nodes t) 1 Store ''counter'' = Some (VRef 7)" by simp
  from pv[of Store "''counter''" "VRef 7" 2] e i d nd th
  have s2: "sees (t_nodes t) 2 Store ''counter'' = Some (VRef 7)" by simp
  from s' t e s1 s2 have run: "\<exists>A' t. start demo_call diamond_defs ?a []
                = Some (A', [''shared'', ''left'', ''right'', ''app''], None) \<and>
         a_runtimeTree A' = Some t \<and>
         look (rt_exportedProviders (t_nodes t 0)) Store ''counter'' = Some (VRef 7) \<and>
         sees (t_nodes t) 1 Store ''counter'' = Some (VRef 7) \<and>
         sees (t_nodes t) 2 Store ''counter'' = Some (VRef 7)" by blast
  show ?thesis
    by (intro conjI h exI[of _ st] b3 l3 g c run)
qed


end
